theory Spec2Isabelle
  imports Complex_Main "HOL-Library.AList"
begin

section \<open>Errors and console output\<close>

text \<open>
  A JavaScript \<^verbatim>\<open>throw\<close> is a value of the left summand of a sum type. The two kinds
  thrown by the modelled code are \<^verbatim>\<open>new Error(msg)\<close> and the \<^verbatim>\<open>TypeError\<close> the
  runtime raises when a property of \<^verbatim>\<open>null\<close> or \<^verbatim>\<open>undefined\<close> is read.
  Console output is a list of lines, oldest first.
\<close>

datatype error = Error string | TypeError string

datatype console_line = ConsoleWarn string | ConsoleError string


section \<open>JavaScript values\<close>

text \<open>
  A number is a rational, or one of \<^verbatim>\<open>NaN\<close>, \<^verbatim>\<open>Infinity\<close> and \<^verbatim>\<open>-Infinity\<close>; the
  rounding of floating point is left out.
\<close>

datatype number = Num rat | NaN | PosInfinity | NegInfinity

text \<open>
  Menu data and option values are JSON-like values. \<open>JFun\<close> stands for a function
  object and carries its \<^verbatim>\<open>name\<close>.
\<close>

datatype js =
    JUndefined
  | JNull
  | JBool bool
  | JNum number
  | JStr string
  | JFun string
  | JArr "js list"
  | JObj "(string \<times> js) list"

fun truthy :: "js \<Rightarrow> bool" where
  "truthy JUndefined = False"
| "truthy JNull = False"
| "truthy (JBool b) = b"
| "truthy (JNum n) = (n \<noteq> Num 0 \<and> n \<noteq> NaN)"
| "truthy (JStr s) = (s \<noteq> [])"
| "truthy (JFun f) = True"
| "truthy (JArr xs) = True"
| "truthy (JObj fs) = True"

text \<open>\<^verbatim>\<open>a || b\<close> on values already computed.\<close>

definition js_or :: "js \<Rightarrow> js \<Rightarrow> js" where
  "js_or a b = (if truthy a then a else b)"

text \<open>
  \<^verbatim>\<open>item.key\<close> for the property names that the code reads from menu data:
  \<^verbatim>\<open>id\<close>, \<^verbatim>\<open>title\<close>, \<^verbatim>\<open>label\<close>, \<^verbatim>\<open>name\<close>, \<^verbatim>\<open>url\<close>, \<^verbatim>\<open>href\<close>, \<^verbatim>\<open>link\<close>,
  \<^verbatim>\<open>openInNewTab\<close>, \<^verbatim>\<open>target\<close>, \<^verbatim>\<open>icon\<close>, \<^verbatim>\<open>cssClass\<close>, \<^verbatim>\<open>className\<close> and
  \<^verbatim>\<open>children\<close>. The read throws a \<^verbatim>\<open>TypeError\<close> on \<^verbatim>\<open>null\<close> and \<^verbatim>\<open>undefined\<close>. A plain
  object yields its own property. Of these names a string inherits \<^verbatim>\<open>link\<close>, the method
  \<^verbatim>\<open>String.prototype.link\<close>, and a function has \<^verbatim>\<open>name\<close>; a number, a boolean and an
  array have none of them.
\<close>

fun js_get :: "js \<Rightarrow> string \<Rightarrow> error + js" where
  "js_get JUndefined key =
     Inl (TypeError (''Cannot read properties of undefined (reading '' @ [CHR 0x27] @ key @
                     [CHR 0x27] @ '')''))"
| "js_get JNull key =
     Inl (TypeError (''Cannot read properties of null (reading '' @ [CHR 0x27] @ key @
                     [CHR 0x27] @ '')''))"
| "js_get (JObj fs) key = Inr (case map_of fs key of None \<Rightarrow> JUndefined | Some v \<Rightarrow> v)"
| "js_get (JStr s) key = Inr (if key = ''link'' then JFun ''link'' else JUndefined)"
| "js_get (JFun f) key = Inr (if key = ''name'' then JStr f else JUndefined)"
| "js_get (JBool b) key = Inr JUndefined"
| "js_get (JNum n) key = Inr JUndefined"
| "js_get (JArr xs) key = Inr JUndefined"

fun isArray :: "js \<Rightarrow> bool" where
  "isArray (JArr xs) = True"
| "isArray v = False"

fun elements :: "js \<Rightarrow> js list" where
  "elements (JArr xs) = xs"
| "elements v = []"

fun js_typeof :: "js \<Rightarrow> string" where
  "js_typeof JUndefined = ''undefined''"
| "js_typeof JNull = ''object''"
| "js_typeof (JBool b) = ''boolean''"
| "js_typeof (JNum n) = ''number''"
| "js_typeof (JStr s) = ''string''"
| "js_typeof (JFun f) = ''function''"
| "js_typeof (JArr xs) = ''object''"
| "js_typeof (JObj fs) = ''object''"

subsection \<open>Comparisons\<close>

text \<open>
  \<^verbatim>\<open>ToNumber\<close>: \<^verbatim>\<open>undefined\<close> becomes \<^verbatim>\<open>NaN\<close>, \<^verbatim>\<open>null\<close> becomes 0, a boolean 0 or 1.
  What a string converts to, and an object, an array or a function through its primitive
  value, is decided by the runtime; that conversion is the parameter \<open>conv\<close>, so that
  whatever is proved holds for every such conversion.
\<close>

fun ToNumber :: "(js \<Rightarrow> number) \<Rightarrow> js \<Rightarrow> number" where
  "ToNumber conv JUndefined = NaN"
| "ToNumber conv JNull = Num 0"
| "ToNumber conv (JBool b) = Num (if b then 1 else 0)"
| "ToNumber conv (JNum n) = n"
| "ToNumber conv (JStr s) = conv (JStr s)"
| "ToNumber conv (JFun f) = conv (JFun f)"
| "ToNumber conv (JArr xs) = conv (JArr xs)"
| "ToNumber conv (JObj fs) = conv (JObj fs)"

text \<open>\<^verbatim>\<open>x < y\<close> on numbers: false when either is \<^verbatim>\<open>NaN\<close>.\<close>

fun num_less :: "number \<Rightarrow> number \<Rightarrow> bool" where
  "num_less (Num a) (Num b) = (a < b)"
| "num_less (Num a) PosInfinity = True"
| "num_less NegInfinity (Num b) = True"
| "num_less NegInfinity PosInfinity = True"
| "num_less x y = False"

text \<open>
  \<^verbatim>\<open>a < b\<close>, \<^verbatim>\<open>a > b\<close> and \<^verbatim>\<open>a >= b\<close> where one operand is a number, as in every
  comparison of the modelled code: both operands are converted to numbers.
  \<^verbatim>\<open>a >= b\<close> is the negation of \<^verbatim>\<open>a < b\<close> unless an operand is \<^verbatim>\<open>NaN\<close>, when it is
  false as well.
\<close>

definition js_less :: "(js \<Rightarrow> number) \<Rightarrow> js \<Rightarrow> js \<Rightarrow> bool" where
  "js_less conv a b = num_less (ToNumber conv a) (ToNumber conv b)"

definition js_greater :: "(js \<Rightarrow> number) \<Rightarrow> js \<Rightarrow> js \<Rightarrow> bool" where
  "js_greater conv a b = num_less (ToNumber conv b) (ToNumber conv a)"

definition js_ge :: "(js \<Rightarrow> number) \<Rightarrow> js \<Rightarrow> js \<Rightarrow> bool" where
  "js_ge conv a b \<longleftrightarrow>
     ToNumber conv a \<noteq> NaN \<and> ToNumber conv b \<noteq> NaN \<and>
     \<not> num_less (ToNumber conv a) (ToNumber conv b)"


section \<open>DataCache (core/scripts/data-retrieval.js)\<close>

text \<open>
  \<^verbatim>\<open>Date.now()\<close> is an integer number of milliseconds and is passed to each operation
  as the parameter \<open>now\<close>. The optional \<^verbatim>\<open>duration\<close> argument of \<^verbatim>\<open>set\<close> is
  \<open>None\<close> when the caller leaves it out. The payload is opaque.
\<close>

record 'a cache_item =
  data :: 'a
  expiry :: int

record 'a DataCache =
  cache :: "string \<rightharpoonup> 'a cache_item"
  duration :: int

text \<open>\<^verbatim>\<open>constructor(duration = 300000)\<close>\<close>

definition DataCache_new :: "int option \<Rightarrow> 'a DataCache" where
  "DataCache_new d = \<lparr>cache = Map.empty, duration = (case d of None \<Rightarrow> 300000 | Some n \<Rightarrow> n)\<rparr>"

text \<open>
  \<^verbatim>\<open>duration || this.duration\<close>: a missing argument and the number 0 are both falsy and
  select the cache's own duration.
\<close>

definition or_duration :: "int option \<Rightarrow> int \<Rightarrow> int" where
  "or_duration d dflt = (case d of None \<Rightarrow> dflt | Some n \<Rightarrow> if n = 0 then dflt else n)"

definition DataCache_get :: "'a DataCache \<Rightarrow> string \<Rightarrow> int \<Rightarrow> 'a option \<times> 'a DataCache" where
  "DataCache_get c key now =
    (case cache c key of
       None \<Rightarrow> (None, c)
     | Some item \<Rightarrow>
         if now > expiry item then (None, c\<lparr>cache := (cache c)(key := None)\<rparr>)
         else (Some (data item), c))"

definition DataCache_set :: "'a DataCache \<Rightarrow> string \<Rightarrow> 'a \<Rightarrow> int option \<Rightarrow> int \<Rightarrow> 'a DataCache" where
  "DataCache_set c key d dur now =
    c\<lparr>cache := (cache c)(key \<mapsto> \<lparr>data = d, expiry = now + or_duration dur (duration c)\<rparr>)\<rparr>"

definition DataCache_clear :: "'a DataCache \<Rightarrow> 'a DataCache" where
  "DataCache_clear c = c\<lparr>cache := Map.empty\<rparr>"

definition DataCache_delete :: "'a DataCache \<Rightarrow> string \<Rightarrow> 'a DataCache" where
  "DataCache_delete c key = c\<lparr>cache := (cache c)(key := None)\<rparr>"

section \<open>MenuConfig (menu configuration module)\<close>

text \<open>
  The configuration holds the options the modelled code reads, apart from the
  \<^verbatim>\<open>sharePoint\<close> section, which is a record of its own further down. \<^verbatim>\<open>layers\<close> is
  whatever value the caller gave: \<^verbatim>\<open>mergeConfig\<close> copies every own key of the options,
  also one whose value is \<^verbatim>\<open>undefined\<close>, \<^verbatim>\<open>NaN\<close> or a string. The other options are
  taken at their documented types, their numbers as integers; \<^verbatim>\<open>triggerType\<close> and
  \<^verbatim>\<open>dataSource.type\<close> are strings, so that an unrecognised value is representable. An
  option the caller leaves out is \<open>None\<close> in \<open>menu_options\<close> and \<^verbatim>\<open>mergeConfig\<close> keeps
  the default for it; \<open>opt_dataSource_type\<close> is the \<^verbatim>\<open>type\<close> of a \<^verbatim>\<open>dataSource\<close> object
  that the options give.
\<close>

record menu_config =
  layers :: js
  triggerType :: string
  closeOnOutsideClick :: bool
  closeOnEscape :: bool
  hoverDelay :: int
  closeDelay :: int
  enableKeyboardNavigation :: bool
  mobileBreakpoint :: int
  cacheData :: bool
  cacheDuration :: int
  dataSource_type :: string

record menu_options =
  opt_layers :: "js option"
  opt_triggerType :: "string option"
  opt_closeOnOutsideClick :: "bool option"
  opt_closeOnEscape :: "bool option"
  opt_hoverDelay :: "int option"
  opt_closeDelay :: "int option"
  opt_enableKeyboardNavigation :: "bool option"
  opt_mobileBreakpoint :: "int option"
  opt_cacheData :: "bool option"
  opt_cacheDuration :: "int option"
  opt_dataSource_type :: "string option"

definition DEFAULT_CONFIG :: menu_config where
  "DEFAULT_CONFIG =
    \<lparr>layers = JNum (Num 3), triggerType = ''hover'', closeOnOutsideClick = True,
     closeOnEscape = True, hoverDelay = 150, closeDelay = 300, enableKeyboardNavigation = True,
     mobileBreakpoint = 768, cacheData = True, cacheDuration = 300000,
     dataSource_type = ''static''\<rparr>"

definition override :: "'a \<Rightarrow> 'a option \<Rightarrow> 'a" where
  "override dflt v = (case v of None \<Rightarrow> dflt | Some x \<Rightarrow> x)"

definition mergeConfig :: "menu_config \<Rightarrow> menu_options \<Rightarrow> menu_config" where
  "mergeConfig defaults overrides =
    \<lparr>layers = override (layers defaults) (opt_layers overrides),
     triggerType = override (triggerType defaults) (opt_triggerType overrides),
     closeOnOutsideClick = override (closeOnOutsideClick defaults) (opt_closeOnOutsideClick overrides),
     closeOnEscape = override (closeOnEscape defaults) (opt_closeOnEscape overrides),
     hoverDelay = override (hoverDelay defaults) (opt_hoverDelay overrides),
     closeDelay = override (closeDelay defaults) (opt_closeDelay overrides),
     enableKeyboardNavigation =
       override (enableKeyboardNavigation defaults) (opt_enableKeyboardNavigation overrides),
     mobileBreakpoint = override (mobileBreakpoint defaults) (opt_mobileBreakpoint overrides),
     cacheData = override (cacheData defaults) (opt_cacheData overrides),
     cacheDuration = override (cacheDuration defaults) (opt_cacheDuration overrides),
     dataSource_type = override (dataSource_type defaults) (opt_dataSource_type overrides)\<rparr>"

text \<open>\<^verbatim>\<open>errors.join('; ')\<close>\<close>

fun join :: "string \<Rightarrow> string list \<Rightarrow> string" where
  "join sep [] = []"
| "join sep [x] = x"
| "join sep (x # y # ys) = x @ sep @ join sep (y # ys)"

text \<open>
  The list \<^verbatim>\<open>errors\<close> that \<^verbatim>\<open>validateConfig\<close> collects, in the order of its checks.
  The check of \<^verbatim>\<open>layers\<close> is \<^verbatim>\<open>layers < 1 || layers > 3\<close>.
\<close>

definition validation_errors :: "(js \<Rightarrow> number) \<Rightarrow> menu_config \<Rightarrow> string list" where
  "validation_errors conv c =
    (if js_less conv (layers c) (JNum (Num 1)) \<or> js_greater conv (layers c) (JNum (Num 3))
     then [''layers must be between 1 and 3''] else []) @
    (if triggerType c \<notin> set [''hover'', ''click'']
     then [''triggerType must be \"hover\" or \"click\"''] else []) @
    (if dataSource_type c \<notin> set [''static'', ''json'', ''sharepoint'', ''api'']
     then [''dataSource.type must be one of: '' @
             join '', '' [''static'', ''json'', ''sharepoint'', ''api'']] else []) @
    (if hoverDelay c < 0 then [''hoverDelay must be a positive number''] else []) @
    (if closeDelay c < 0 then [''closeDelay must be a positive number''] else [])"

text \<open>
  \<^verbatim>\<open>validateConfig\<close> logs and throws when the list is not empty. The result pairs the
  console output with the outcome.
\<close>

definition validateConfig ::
  "(js \<Rightarrow> number) \<Rightarrow> menu_config \<Rightarrow> console_line list \<times> (error + unit)" where
  "validateConfig conv c =
    (let errors = validation_errors conv c in
     if length errors > 0
     then ([ConsoleError (''Menu Configuration Errors: '' @ join '','' errors)],
           Inl (Error (''Invalid menu configuration: '' @ join ''; '' errors)))
     else ([], Inr ()))"

text \<open>
  The constructor merges, then validates; when validation throws, \<^verbatim>\<open>new\<close> yields no
  object, so the outcome is the error alone.
\<close>

definition MenuConfig_new ::
  "(js \<Rightarrow> number) \<Rightarrow> menu_options \<Rightarrow> console_line list \<times> (error + menu_config)" where
  "MenuConfig_new conv options =
    (let config = mergeConfig DEFAULT_CONFIG options in
     case validateConfig conv config of
       (out, Inl e) \<Rightarrow> (out, Inl e)
     | (out, Inr _) \<Rightarrow> (out, Inr config))"

definition no_options :: menu_options where
  "no_options =
    \<lparr>opt_layers = None, opt_triggerType = None, opt_closeOnOutsideClick = None,
     opt_closeOnEscape = None, opt_hoverDelay = None, opt_closeDelay = None,
     opt_enableKeyboardNavigation = None, opt_mobileBreakpoint = None, opt_cacheData = None,
     opt_cacheDuration = None, opt_dataSource_type = None\<rparr>"

text \<open>
  \<^verbatim>\<open>getAll()\<close> returns a copy of the configuration, an object with every key; and
  \<^verbatim>\<open>{...a, ...b}\<close> takes each key from \<open>b\<close> when \<open>b\<close> has it and from \<open>a\<close> otherwise.
\<close>

definition getAll :: "menu_config \<Rightarrow> menu_options" where
  "getAll c =
    \<lparr>opt_layers = Some (layers c), opt_triggerType = Some (triggerType c),
     opt_closeOnOutsideClick = Some (closeOnOutsideClick c),
     opt_closeOnEscape = Some (closeOnEscape c), opt_hoverDelay = Some (hoverDelay c),
     opt_closeDelay = Some (closeDelay c),
     opt_enableKeyboardNavigation = Some (enableKeyboardNavigation c),
     opt_mobileBreakpoint = Some (mobileBreakpoint c), opt_cacheData = Some (cacheData c),
     opt_cacheDuration = Some (cacheDuration c),
     opt_dataSource_type = Some (dataSource_type c)\<rparr>"

definition later :: "'a option \<Rightarrow> 'a option \<Rightarrow> 'a option" where
  "later a b = (case b of None \<Rightarrow> a | Some v \<Rightarrow> Some v)"

definition spread :: "menu_options \<Rightarrow> menu_options \<Rightarrow> menu_options" where
  "spread a b =
    \<lparr>opt_layers = later (opt_layers a) (opt_layers b),
     opt_triggerType = later (opt_triggerType a) (opt_triggerType b),
     opt_closeOnOutsideClick = later (opt_closeOnOutsideClick a) (opt_closeOnOutsideClick b),
     opt_closeOnEscape = later (opt_closeOnEscape a) (opt_closeOnEscape b),
     opt_hoverDelay = later (opt_hoverDelay a) (opt_hoverDelay b),
     opt_closeDelay = later (opt_closeDelay a) (opt_closeDelay b),
     opt_enableKeyboardNavigation =
       later (opt_enableKeyboardNavigation a) (opt_enableKeyboardNavigation b),
     opt_mobileBreakpoint = later (opt_mobileBreakpoint a) (opt_mobileBreakpoint b),
     opt_cacheData = later (opt_cacheData a) (opt_cacheData b),
     opt_cacheDuration = later (opt_cacheDuration a) (opt_cacheDuration b),
     opt_dataSource_type = later (opt_dataSource_type a) (opt_dataSource_type b)\<rparr>"

text \<open>The checks of \<^verbatim>\<open>validateConfig\<close> other than the one on \<^verbatim>\<open>layers\<close>.\<close>

definition other_options_valid :: "menu_config \<Rightarrow> bool" where
  "other_options_valid c \<longleftrightarrow>
     triggerType c \<in> set [''hover'', ''click''] \<and>
     dataSource_type c \<in> set [''static'', ''json'', ''sharepoint'', ''api''] \<and>
     0 \<le> hoverDelay c \<and> 0 \<le> closeDelay c"

text \<open>
  A value lies in the range 1 to 3 when it is a number, not \<^verbatim>\<open>NaN\<close>, that is at least 1
  and at most 3.
\<close>

fun in_range_1_3 :: "js \<Rightarrow> bool" where
  "in_range_1_3 (JNum (Num r)) = (1 \<le> r \<and> r \<le> 3)"
| "in_range_1_3 v = False"

section \<open>Normalization (DataRetrieval.normalizeData, normalizeItem)\<close>

datatype menu_node =
  MenuNode (node_id: js) (node_title: js) (node_url: js) (node_openInNewTab: js)
    (node_icon: js) (node_cssClass: js) (node_level: int) (node_children: "menu_node list")

text \<open>
  \<^verbatim>\<open>Math.random\<close> is outside the program: \<open>rnd k\<close> is the text that
  \<^verbatim>\<open>Math.random().toString(36).substr(2, 9)\<close> yields at the \<open>k\<close>-th call, and the
  number of calls made so far is threaded through the functions that may call
  \<^verbatim>\<open>generateId\<close>.
\<close>

definition generateId :: "(nat \<Rightarrow> string) \<Rightarrow> nat \<Rightarrow> js \<times> nat" where
  "generateId rnd k = (JStr (''menu_'' @ rnd k), Suc k)"

text \<open>
  \<^verbatim>\<open>array.map(f)\<close> for an \<open>f\<close> that threads a state and may throw: left to right,
  stopping at the first throw.
\<close>

fun map_throwing :: "('a \<Rightarrow> 's \<Rightarrow> error + 'b \<times> 's) \<Rightarrow> 'a list \<Rightarrow> 's \<Rightarrow> error + 'b list \<times> 's" where
  "map_throwing f [] s = Inr ([], s)"
| "map_throwing f (x # xs) s =
    (case f x s of
       Inl e \<Rightarrow> Inl e
     | Inr (y, s1) \<Rightarrow>
         (case map_throwing f xs s1 of
            Inl e \<Rightarrow> Inl e
          | Inr (ys, s2) \<Rightarrow> Inr (y # ys, s2)))"

text \<open>
  A property read on an item already known not to be \<^verbatim>\<open>null\<close> or \<^verbatim>\<open>undefined\<close>.
\<close>

definition js_prop :: "js \<Rightarrow> string \<Rightarrow> js" where
  "js_prop item key = (case js_get item key of Inl e \<Rightarrow> JUndefined | Inr v \<Rightarrow> v)"

text \<open>
  The object literal \<^verbatim>\<open>normalized\<close> of \<^verbatim>\<open>normalizeItem\<close>, its \<^verbatim>\<open>children\<close> still
  empty. The first property read, \<^verbatim>\<open>item.id\<close>, throws when the item is \<^verbatim>\<open>null\<close> or
  \<^verbatim>\<open>undefined\<close>; after it no read can throw.
\<close>

definition normalized :: "(nat \<Rightarrow> string) \<Rightarrow> js \<Rightarrow> int \<Rightarrow> nat \<Rightarrow> error + menu_node \<times> nat" where
  "normalized rnd item level k =
    (case js_get item ''id'' of
       Inl e \<Rightarrow> Inl e
     | Inr idv \<Rightarrow>
         (let (new_id, k1) = (if truthy idv then (idv, k) else generateId rnd k) in
          Inr (MenuNode
                 new_id
                 (js_or (js_prop item ''title'')
                    (js_or (js_prop item ''label'') (js_or (js_prop item ''name'') (JStr ''Untitled''))))
                 (js_or (js_prop item ''url'')
                    (js_or (js_prop item ''href'') (js_or (js_prop item ''link'') (JStr ''#''))))
                 (js_or (js_prop item ''openInNewTab'')
                    (js_or (JBool (js_prop item ''target'' = JStr ''_blank'')) (JBool False)))
                 (js_or (js_prop item ''icon'') JNull)
                 (js_or (js_prop item ''cssClass'') (js_or (js_prop item ''className'') (JStr [])))
                 level
                 [], k1)))"

text \<open>
  \<^verbatim>\<open>normalizeItem(item, level)\<close>; \<open>maxLayers\<close> is \<^verbatim>\<open>this.config.get('layers')\<close>,
  here an integer. The recursion descends only under \<^verbatim>\<open>level < maxLayers\<close>, which is
  also why it ends.
\<close>

function normalizeItem :: "(nat \<Rightarrow> string) \<Rightarrow> int \<Rightarrow> js \<Rightarrow> int \<Rightarrow> nat \<Rightarrow> error + menu_node \<times> nat" where
  "normalizeItem rnd maxLayers item level k =
    (case normalized rnd item level k of
       Inl e \<Rightarrow> Inl e
     | Inr (node, k1) \<Rightarrow>
         if level < maxLayers \<and> truthy (js_prop item ''children'') \<and> isArray (js_prop item ''children'')
         then (case map_throwing (\<lambda>child. normalizeItem rnd maxLayers child (level + 1))
                      (elements (js_prop item ''children'')) k1 of
                 Inl e \<Rightarrow> Inl e
               | Inr (cs, k2) \<Rightarrow>
                   Inr (MenuNode (node_id node) (node_title node) (node_url node)
                          (node_openInNewTab node) (node_icon node) (node_cssClass node)
                          (node_level node) cs, k2))
         else Inr (node, k1))"
  by pat_completeness auto
termination
  by (relation "measure (\<lambda>(rnd, maxLayers, item, level, k). nat (maxLayers - level))") auto

text \<open>
  \<^verbatim>\<open>normalizeData(data)\<close>: the console output and the outcome. Each element is
  normalized at the default level 1.
\<close>

definition normalizeData ::
  "(nat \<Rightarrow> string) \<Rightarrow> int \<Rightarrow> js \<Rightarrow> nat \<Rightarrow> console_line list \<times> (error + menu_node list \<times> nat)" where
  "normalizeData rnd maxLayers payload k =
    (if \<not> isArray payload
     then ([ConsoleWarn (''Menu data should be an array, received: '' @ js_typeof payload)],
           Inr ([], k))
     else ([], map_throwing (\<lambda>item. normalizeItem rnd maxLayers item 1) (elements payload) k))"

text \<open>
  Two predicates on a normalized tree: every node carries the level it sits at, counted
  from \<open>l\<close> at the root; and no node at or beyond level \<open>maxLayers\<close> has children.
\<close>

fun levels_from :: "int \<Rightarrow> menu_node \<Rightarrow> bool" where
  "levels_from l (MenuNode i t u b ic c lvl cs) =
     (lvl = l \<and> list_all (levels_from (l + 1)) cs)"

fun truncated :: "int \<Rightarrow> menu_node \<Rightarrow> bool" where
  "truncated maxLayers (MenuNode i t u b ic c lvl cs) =
     ((if lvl < maxLayers then True else cs = []) \<and> list_all (truncated maxLayers) cs)"

declare normalizeItem.simps [simp del]

text \<open>
  The node without its children; and the items that \<^verbatim>\<open>normalizeItem\<close> can read: the item
  is neither \<^verbatim>\<open>null\<close> nor \<^verbatim>\<open>undefined\<close>, and so are, below the limit, the elements of
  its \<^verbatim>\<open>children\<close> array, and theirs.
\<close>

definition childless :: "menu_node \<Rightarrow> menu_node" where
  "childless n =
     MenuNode (node_id n) (node_title n) (node_url n) (node_openInNewTab n) (node_icon n)
       (node_cssClass n) (node_level n) []"

definition descends :: "int \<Rightarrow> js \<Rightarrow> int \<Rightarrow> bool" where
  "descends maxLayers item level \<longleftrightarrow>
     level < maxLayers \<and> truthy (js_prop item ''children'') \<and> isArray (js_prop item ''children'')"

function readable :: "int \<Rightarrow> js \<Rightarrow> int \<Rightarrow> bool" where
  "readable maxLayers item level =
    (item \<noteq> JNull \<and> item \<noteq> JUndefined \<and>
     (if level < maxLayers \<and> truthy (js_prop item ''children'') \<and> isArray (js_prop item ''children'')
      then list_all (\<lambda>child. readable maxLayers child (level + 1))
             (elements (js_prop item ''children''))
      else True))"
  by pat_completeness auto
termination
  by (relation "measure (\<lambda>(maxLayers, item, level). nat (maxLayers - level))") auto

declare readable.simps [simp del]

section \<open>MenuEngine (menu engine module)\<close>

text \<open>
  The controller together with the part of the browser it acts on: the listeners it has
  registered on the document, the window and the container, the timers it has armed, the
  clock, the viewport width and the conversion of strings and objects to numbers. The
  configuration is replaced by \<^verbatim>\<open>updateConfig\<close> only (nothing in the code calls the
  method \<^verbatim>\<open>set\<close> of \<^verbatim>\<open>MenuConfig\<close>), and the lifecycle callbacks are \<^verbatim>\<open>null\<close>, as in
  \<^verbatim>\<open>DEFAULT_CONFIG\<close>.

  A listener is identified by its target, its event type and its callback. The three
  bound methods are the same function object at every registration; the Escape handler
  is an arrow function created afresh by each call of \<^verbatim>\<open>attachEventListeners\<close>, numbered
  in order of creation.
\<close>

datatype event_target = Document | Window | Container

datatype handler = HandleDocumentClick | HandleKeyDown | HandleResize | EscapeClosure nat

type_synonym listener = "event_target \<times> string \<times> handler"

text \<open>
  The callback given to \<^verbatim>\<open>setTimeout\<close> is one of the two arrow functions of
  \<^verbatim>\<open>attachSubmenuHandlers\<close>, closed over the trigger and submenu of one list item.
\<close>

datatype timer_callback = OpenSubmenu nat | CloseSubmenu nat

record timer =
  timer_id :: nat
  due :: int
  callback :: timer_callback

text \<open>
  One call of \<^verbatim>\<open>attachSubmenuHandlers(parentLi, trigger, submenu)\<close>: the three elements
  share the number \<open>el_id\<close>, and the handlers close over the trigger type and the two
  delays read at that moment.
\<close>

record submenu_el =
  el_id :: nat
  el_item :: js
  el_triggerType :: string
  el_hoverDelay :: int
  el_closeDelay :: int

text \<open>
  \<open>expanded\<close> holds the triggers whose \<^verbatim>\<open>aria-expanded\<close> is \<^verbatim>\<open>"true"\<close>, \<open>visible\<close> the
  submenus carrying the visible classes, \<open>rendered\<close> the list items with a submenu that
  are inside the container now. \<open>fired\<close> records the timers whose callback has run and
  \<open>getData_calls\<close> counts the calls of \<^verbatim>\<open>dataRetrieval.getData\<close>; the code reads
  neither. \<open>pending_init\<close> and \<open>pending_refresh\<close> count the calls of \<^verbatim>\<open>init\<close> and
  \<^verbatim>\<open>refresh\<close> suspended at their \<^verbatim>\<open>await\<close>. \<open>conversion\<close> is the conversion that the
  comparisons of \<^verbatim>\<open>layers\<close> go through; nothing changes it.
\<close>

record MenuEngine =
  config :: menu_config
  isInitialized :: bool
  isLoading :: bool
  menuData :: "menu_node list"
  openMenus :: "nat set"
  hoverTimeout :: "nat option"
  closeTimeout :: "nat option"
  rendered :: "submenu_el list"
  hasMenu :: bool
  toggleExpanded :: bool
  primaryListOpen :: bool
  errorShown :: "string option"
  expanded :: "nat set"
  visible :: "nat set"
  listeners :: "listener list"
  timers :: "timer list"
  fired :: "nat list"
  next_timer :: nat
  next_closure :: nat
  next_element :: nat
  clock :: int
  innerWidth :: int
  console :: "console_line list"
  getData_calls :: nat
  pending_init :: nat
  pending_refresh :: nat
  conversion :: "js \<Rightarrow> number"

text \<open>
  The constructor: \<open>found\<close> tells whether the container exists, \<open>width\<close> is the
  viewport width at that time and \<open>conv\<close> the conversion of the runtime.
\<close>

definition fresh_engine ::
  "(js \<Rightarrow> number) \<Rightarrow> menu_config \<Rightarrow> console_line list \<Rightarrow> int \<Rightarrow> MenuEngine" where
  "fresh_engine conv c out width =
    \<lparr>config = c, isInitialized = False, isLoading = False, menuData = [],
     openMenus = {}, hoverTimeout = None, closeTimeout = None,
     rendered = [], hasMenu = False, toggleExpanded = False,
     primaryListOpen = False, errorShown = None,
     expanded = {}, visible = {}, listeners = [], timers = [], fired = [],
     next_timer = 0, next_closure = 0, next_element = 0, clock = 0,
     innerWidth = width, console = out, getData_calls = 0,
     pending_init = 0, pending_refresh = 0, conversion = conv\<rparr>"

definition MenuEngine_new ::
  "(js \<Rightarrow> number) \<Rightarrow> bool \<Rightarrow> menu_options \<Rightarrow> int \<Rightarrow> console_line list \<times> (error + MenuEngine)" where
  "MenuEngine_new conv found options width =
    (if \<not> found then ([], Inl (Error ''Menu container not found''))
     else case MenuConfig_new conv options of
       (out, Inl e) \<Rightarrow> (out, Inl e)
     | (out, Inr c) \<Rightarrow> (out, Inr (fresh_engine conv c out width)))"

subsection \<open>Browser primitives\<close>

text \<open>
  \<^verbatim>\<open>addEventListener\<close> ignores a listener that is already registered with the same
  target, type and callback; \<^verbatim>\<open>removeEventListener\<close> needs the same callback object.
\<close>

definition addEventListener :: "listener \<Rightarrow> MenuEngine \<Rightarrow> MenuEngine" where
  "addEventListener l s =
    (if l \<in> set (listeners s) then s else s\<lparr>listeners := listeners s @ [l]\<rparr>)"

definition removeEventListener :: "listener \<Rightarrow> MenuEngine \<Rightarrow> MenuEngine" where
  "removeEventListener l s = s\<lparr>listeners := removeAll l (listeners s)\<rparr>"

text \<open>
  \<^verbatim>\<open>setTimeout\<close> returns a fresh handle; \<^verbatim>\<open>clearTimeout\<close> of \<^verbatim>\<open>null\<close> or of a handle
  that has fired or been cleared does nothing.
\<close>

definition setTimeout :: "timer_callback \<Rightarrow> int \<Rightarrow> MenuEngine \<Rightarrow> nat \<times> MenuEngine" where
  "setTimeout cb delay s =
    (next_timer s,
     s\<lparr>timers := timers s @ [\<lparr>timer_id = next_timer s, due = clock s + max 0 delay, callback = cb\<rparr>],
       next_timer := Suc (next_timer s)\<rparr>)"

definition clearTimeout :: "nat option \<Rightarrow> MenuEngine \<Rightarrow> MenuEngine" where
  "clearTimeout h s =
    (case h of
       None \<Rightarrow> s
     | Some i \<Rightarrow> s\<lparr>timers := filter (\<lambda>t. timer_id t \<noteq> i) (timers s)\<rparr>)"

subsection \<open>Opening and closing\<close>

definition openSubmenu :: "nat \<Rightarrow> MenuEngine \<Rightarrow> MenuEngine" where
  "openSubmenu i s =
    s\<lparr>expanded := insert i (expanded s), visible := insert i (visible s),
      openMenus := insert i (openMenus s)\<rparr>"

definition closeSubmenu :: "nat \<Rightarrow> MenuEngine \<Rightarrow> MenuEngine" where
  "closeSubmenu i s =
    s\<lparr>expanded := expanded s - {i}, visible := visible s - {i},
      openMenus := openMenus s - {i}\<rparr>"

text \<open>
  \<^verbatim>\<open>closeAllSubmenus\<close> works on what \<^verbatim>\<open>querySelectorAll\<close> finds inside the container:
  the rendered triggers and submenus, and the mobile toggle button, whose
  \<^verbatim>\<open>aria-expanded\<close> matches the first selector too.
\<close>

definition closeAllSubmenus :: "MenuEngine \<Rightarrow> MenuEngine" where
  "closeAllSubmenus s =
    s\<lparr>expanded := expanded s - set (map el_id (rendered s)),
      toggleExpanded := False,
      visible := visible s - set (map el_id (rendered s)),
      openMenus := {}\<rparr>"

text \<open>The submenus of the rendered tree that are open.\<close>

definition open_submenus :: "MenuEngine \<Rightarrow> nat set" where
  "open_submenus s = expanded s \<inter> set (map el_id (rendered s))"

subsection \<open>Handlers of one list item (attachSubmenuHandlers)\<close>

definition mouseenter :: "submenu_el \<Rightarrow> MenuEngine \<Rightarrow> MenuEngine" where
  "mouseenter e s =
    (if el_triggerType e = ''hover''
     then (let s1 = clearTimeout (closeTimeout s) s;
               (h, s2) = setTimeout (OpenSubmenu (el_id e)) (el_hoverDelay e) s1
           in s2\<lparr>hoverTimeout := Some h\<rparr>)
     else s)"

definition mouseleave :: "submenu_el \<Rightarrow> MenuEngine \<Rightarrow> MenuEngine" where
  "mouseleave e s =
    (if el_triggerType e = ''hover''
     then (let s1 = clearTimeout (hoverTimeout s) s;
               (h, s2) = setTimeout (CloseSubmenu (el_id e)) (el_closeDelay e) s1
           in s2\<lparr>closeTimeout := Some h\<rparr>)
     else s)"

text \<open>
  The click handler acts only under its gate: click mode, or a viewport no wider than
  the mobile breakpoint.
\<close>

definition activates :: "submenu_el \<Rightarrow> MenuEngine \<Rightarrow> bool" where
  "activates e s \<longleftrightarrow> el_triggerType e = ''click'' \<or> innerWidth s \<le> mobileBreakpoint (config s)"

definition click :: "submenu_el \<Rightarrow> MenuEngine \<Rightarrow> MenuEngine" where
  "click e s =
    (if activates e s
     then (if el_id e \<in> expanded s
           then closeSubmenu (el_id e) s
           else openSubmenu (el_id e) (closeAllSubmenus s))
     else s)"

definition toggle_click :: "MenuEngine \<Rightarrow> MenuEngine" where
  "toggle_click s =
    (if hasMenu s
     then s\<lparr>primaryListOpen := \<not> primaryListOpen s, toggleExpanded := \<not> primaryListOpen s\<rparr>
     else s)"

subsection \<open>Rendering\<close>

text \<open>
  The items that get a submenu and handlers, in the order of the calls of
  \<^verbatim>\<open>attachSubmenuHandlers\<close>: a primary item with children, after those of its children
  that have children themselves when \<^verbatim>\<open>layers >= 3\<close>.
\<close>

definition submenu_items ::
  "(js \<Rightarrow> number) \<Rightarrow> menu_config \<Rightarrow> menu_node list \<Rightarrow> menu_node list" where
  "submenu_items conv c items =
    concat (map (\<lambda>item.
      if node_children item \<noteq> []
      then (if js_ge conv (layers c) (JNum (Num 3)) then filter (\<lambda>child. node_children child \<noteq> []) (node_children item)
            else []) @ [item]
      else []) items)"

definition render :: "MenuEngine \<Rightarrow> MenuEngine" where
  "render s =
    (let items = submenu_items (conversion s) (config s) (menuData s) in
     s\<lparr>rendered :=
         map (\<lambda>(i, item). \<lparr>el_id = i, el_item = node_id item,
                            el_triggerType = triggerType (config s),
                            el_hoverDelay = hoverDelay (config s),
                            el_closeDelay = closeDelay (config s)\<rparr>)
           (enumerate (next_element s) items),
       next_element := next_element s + length items,
       hasMenu := True, toggleExpanded := False, primaryListOpen := False,
       errorShown := None\<rparr>)"

definition renderError :: "string \<Rightarrow> MenuEngine \<Rightarrow> MenuEngine" where
  "renderError message s =
    s\<lparr>rendered := [], hasMenu := False, toggleExpanded := False, primaryListOpen := False,
      errorShown := Some message\<rparr>"

subsection \<open>Global listeners\<close>

definition attachEventListeners :: "MenuEngine \<Rightarrow> MenuEngine" where
  "attachEventListeners s =
    (let s1 = (if closeOnOutsideClick (config s)
               then addEventListener (Document, ''click'', HandleDocumentClick) s else s);
         s2 = (if enableKeyboardNavigation (config s1)
               then addEventListener (Container, ''keydown'', HandleKeyDown) s1 else s1);
         s3 = (if closeOnEscape (config s2)
               then (addEventListener (Document, ''keydown'', EscapeClosure (next_closure s2)) s2)
                      \<lparr>next_closure := Suc (next_closure s2)\<rparr>
               else s2)
     in addEventListener (Window, ''resize'', HandleResize) s3)"

definition handleDocumentClick :: "bool \<Rightarrow> MenuEngine \<Rightarrow> MenuEngine" where
  "handleDocumentClick inside s = (if \<not> inside then closeAllSubmenus s else s)"

text \<open>
  \<^verbatim>\<open>handleKeyDown\<close>: the arrow keys, Home and End move the focus, which the model does
  not hold; Enter and Space click the focused element when it is a trigger with a
  submenu, given as \<open>active\<close>.
\<close>

definition handleKeyDown :: "string \<Rightarrow> submenu_el option \<Rightarrow> MenuEngine \<Rightarrow> MenuEngine" where
  "handleKeyDown key active s =
    (if key = ''Enter'' \<or> key = '' ''
     then (case active of None \<Rightarrow> s | Some e \<Rightarrow> click e s)
     else s)"

definition handleResize :: "MenuEngine \<Rightarrow> MenuEngine" where
  "handleResize s =
    (if innerWidth s > mobileBreakpoint (config s)
     then s\<lparr>primaryListOpen := False, toggleExpanded := False\<rparr>
     else s)"

text \<open>What one registered listener does with an event of its target and type.\<close>

definition on_document_keydown :: "string \<Rightarrow> listener \<Rightarrow> MenuEngine \<Rightarrow> MenuEngine" where
  "on_document_keydown key l s =
    (case l of
       (Document, ty, EscapeClosure n) \<Rightarrow>
         if ty = ''keydown'' \<and> key = ''Escape'' then closeAllSubmenus s else s
     | _ \<Rightarrow> s)"

subsection \<open>Public operations\<close>

definition setLoading :: "bool \<Rightarrow> MenuEngine \<Rightarrow> MenuEngine" where
  "setLoading loading s = s\<lparr>isLoading := loading\<rparr>"

text \<open>
  \<^verbatim>\<open>init\<close> up to its \<^verbatim>\<open>await\<close>, and from there on once \<^verbatim>\<open>getData\<close> has settled with
  the tree or with an error. The second part also returns what the promise of
  \<^verbatim>\<open>init\<close> settles with.
\<close>

definition init_begin :: "MenuEngine \<Rightarrow> MenuEngine" where
  "init_begin s =
    (if isInitialized s
     then s\<lparr>console := console s @ [ConsoleWarn ''Menu is already initialized'']\<rparr>
     else (setLoading True s)\<lparr>getData_calls := Suc (getData_calls s),
                               pending_init := Suc (pending_init s)\<rparr>)"

definition init_resume :: "error + menu_node list \<Rightarrow> MenuEngine \<Rightarrow> (error + unit) \<times> MenuEngine" where
  "init_resume outcome s =
    (let s0 = s\<lparr>pending_init := pending_init s - 1\<rparr> in
     case outcome of
       Inr tree \<Rightarrow>
         (Inr (), setLoading False
                    ((attachEventListeners (render (s0\<lparr>menuData := tree\<rparr>)))
                       \<lparr>isInitialized := True\<rparr>))
     | Inl e \<Rightarrow>
         (Inl e, setLoading False
                   (renderError (case e of Error m \<Rightarrow> m | TypeError m \<Rightarrow> m) s0)))"

definition refresh_begin :: "MenuEngine \<Rightarrow> MenuEngine" where
  "refresh_begin s =
    s\<lparr>getData_calls := Suc (getData_calls s), pending_refresh := Suc (pending_refresh s)\<rparr>"

definition refresh_resume :: "error + menu_node list \<Rightarrow> MenuEngine \<Rightarrow> (error + unit) \<times> MenuEngine" where
  "refresh_resume outcome s =
    (let s0 = s\<lparr>pending_refresh := pending_refresh s - 1\<rparr> in
     case outcome of
       Inr tree \<Rightarrow> (Inr (), attachEventListeners (render (s0\<lparr>menuData := tree\<rparr>)))
     | Inl e \<Rightarrow> (Inl e, s0))"

text \<open>
  \<^verbatim>\<open>updateConfig(options)\<close> constructs a \<^verbatim>\<open>MenuConfig\<close> from the options spread over the
  present configuration and stores it; when the constructor throws, the assignment does
  not happen. Nothing is rendered again: the handlers attached so far keep the trigger
  type and the delays they were created with.
\<close>

definition updateConfig :: "menu_options \<Rightarrow> MenuEngine \<Rightarrow> (error + unit) \<times> MenuEngine" where
  "updateConfig options s =
    (case MenuConfig_new (conversion s) (spread (getAll (config s)) options) of
       (out, Inl e) \<Rightarrow> (Inl e, s\<lparr>console := console s @ out\<rparr>)
     | (out, Inr c) \<Rightarrow> (Inr (), s\<lparr>config := c, console := console s @ out\<rparr>))"

definition destroy :: "MenuEngine \<Rightarrow> MenuEngine" where
  "destroy s =
    (let s1 = removeEventListener (Document, ''click'', HandleDocumentClick) s;
         s2 = removeEventListener (Container, ''keydown'', HandleKeyDown) s1;
         s3 = removeEventListener (Window, ''resize'', HandleResize) s2
     in s3\<lparr>rendered := [], hasMenu := False, toggleExpanded := False,
           primaryListOpen := False, errorShown := None,
           isInitialized := False, menuData := [], openMenus := {}\<rparr>)"

subsection \<open>The event loop\<close>

text \<open>
  A timer fires when the clock has reached its due time; the timers due within one
  passage of time fire by due time, those due together in the order they were armed.
  Neither callback arms or clears a timer.
\<close>

definition fire :: "timer \<Rightarrow> MenuEngine \<Rightarrow> MenuEngine" where
  "fire t s =
    (case callback t of
       OpenSubmenu i \<Rightarrow> openSubmenu i (s\<lparr>fired := fired s @ [timer_id t]\<rparr>)
     | CloseSubmenu i \<Rightarrow> closeSubmenu i (s\<lparr>fired := fired s @ [timer_id t]\<rparr>))"

definition advance :: "nat \<Rightarrow> MenuEngine \<Rightarrow> MenuEngine" where
  "advance d s =
    (let now = clock s + int d in
     fold fire (sort_key due (filter (\<lambda>t. due t \<le> now) (timers s)))
       (s\<lparr>timers := filter (\<lambda>t. \<not> due t \<le> now) (timers s), clock := now\<rparr>))"

text \<open>
  Everything that can happen to a controller: the events of the browser, the passage of
  time, and the calls of its documented methods \<^verbatim>\<open>init\<close>, \<^verbatim>\<open>refresh\<close>, \<^verbatim>\<open>destroy\<close>,
  \<^verbatim>\<open>updateConfig\<close> and \<^verbatim>\<open>closeAllSubmenus\<close>, the two asynchronous ones split at their
  \<^verbatim>\<open>await\<close>. A pointer or click event names the list item it is dispatched to. A key press carries the key, whether its target is inside
  the container, and the focused trigger if there is one; it reaches the container's
  listener first and the document's listeners after. A document click tells whether its
  target is inside the container.
\<close>

datatype event =
    MouseEnter submenu_el
  | MouseLeave submenu_el
  | Click submenu_el
  | ToggleClick
  | DocumentClick bool
  | KeyDown string bool "submenu_el option"
  | Resize int
  | Advance nat
  | Init
  | InitResume "error + menu_node list"
  | Refresh
  | RefreshResume "error + menu_node list"
  | Destroy
  | CloseAllSubmenus
  | UpdateConfig menu_options

fun step :: "event \<Rightarrow> MenuEngine \<Rightarrow> MenuEngine" where
  "step (MouseEnter e) s = mouseenter e s"
| "step (MouseLeave e) s = mouseleave e s"
| "step (Click e) s = click e s"
| "step ToggleClick s = toggle_click s"
| "step (DocumentClick inside) s =
    (if (Document, ''click'', HandleDocumentClick) \<in> set (listeners s)
     then handleDocumentClick inside s else s)"
| "step (KeyDown key inside active) s =
    (let s1 = (if inside \<and> (Container, ''keydown'', HandleKeyDown) \<in> set (listeners s)
               then handleKeyDown key active s else s)
     in fold (on_document_keydown key) (listeners s1) s1)"
| "step (Resize w) s =
    (let s1 = s\<lparr>innerWidth := w\<rparr> in
     if (Window, ''resize'', HandleResize) \<in> set (listeners s1) then handleResize s1 else s1)"
| "step (Advance d) s = advance d s"
| "step Init s = init_begin s"
| "step (InitResume outcome) s = (if pending_init s > 0 then snd (init_resume outcome s) else s)"
| "step Refresh s = refresh_begin s"
| "step (RefreshResume outcome) s =
    (if pending_refresh s > 0 then snd (refresh_resume outcome s) else s)"
| "step Destroy s = destroy s"
| "step CloseAllSubmenus s = closeAllSubmenus s"
| "step (UpdateConfig options) s = snd (updateConfig options s)"

definition run :: "event list \<Rightarrow> MenuEngine \<Rightarrow> MenuEngine" where
  "run es s = fold step es s"

text \<open>The milliseconds that pass during a sequence of events.\<close>

fun elapsed :: "event list \<Rightarrow> nat" where
  "elapsed [] = 0"
| "elapsed (Advance d # es) = d + elapsed es"
| "elapsed (ev # es) = elapsed es"

fun is_mouseenter :: "event \<Rightarrow> bool" where
  "is_mouseenter (MouseEnter e) = True"
| "is_mouseenter ev = False"

text \<open>
  Timer handles are unique: every pending or fired timer has a handle below the next
  one to be issued. The freshly constructed controller satisfies this and every event
  keeps it.
\<close>

definition handles_fresh :: "MenuEngine \<Rightarrow> bool" where
  "handles_fresh s \<longleftrightarrow>
     list_all (\<lambda>t. timer_id t < next_timer s) (timers s) \<and>
     list_all (\<lambda>i. i < next_timer s) (fired s)"

text \<open>
  An event that runs the click handler of the list item numbered \<open>i\<close>: a click on its
  trigger, or Enter or Space while that trigger has the focus.
\<close>

fun clicks_on :: "nat \<Rightarrow> event \<Rightarrow> bool" where
  "clicks_on i (Click e) = (el_id e = i)"
| "clicks_on i (KeyDown key inside (Some e)) = ((key = ''Enter'' \<or> key = '' '') \<and> el_id e = i)"
| "clicks_on i ev = False"

text \<open>
  A handle that is neither pending nor fired and is older than the next one to be
  issued.
\<close>

definition spent :: "nat \<Rightarrow> MenuEngine \<Rightarrow> bool" where
  "spent h s \<longleftrightarrow> h < next_timer s \<and> h \<notin> timer_id ` set (timers s) \<and> h \<notin> set (fired s)"

text \<open>
  A pointer, click or key event can only be dispatched to a list item that is inside the
  container; a sequence of events is well dispatched when each of its events can be
  dispatched in the state it meets.
\<close>

fun dispatchable :: "event \<Rightarrow> MenuEngine \<Rightarrow> bool" where
  "dispatchable (MouseEnter e) s = (e \<in> set (rendered s))"
| "dispatchable (MouseLeave e) s = (e \<in> set (rendered s))"
| "dispatchable (Click e) s = (e \<in> set (rendered s))"
| "dispatchable (KeyDown key inside (Some e)) s = (e \<in> set (rendered s))"
| "dispatchable ev s = True"

fun well_dispatched :: "event list \<Rightarrow> MenuEngine \<Rightarrow> bool" where
  "well_dispatched [] s = True"
| "well_dispatched (ev # es) s = (dispatchable ev s \<and> well_dispatched es (step ev s))"

text \<open>The events that can touch the timers, the stored handles or the clock.\<close>

fun timer_event :: "event \<Rightarrow> bool" where
  "timer_event (MouseEnter e) = True"
| "timer_event (MouseLeave e) = True"
| "timer_event (Advance d) = True"
| "timer_event ev = False"


text \<open>A call of \<^verbatim>\<open>updateConfig\<close> whose options give \<^verbatim>\<open>triggerType: 'hover'\<close>.\<close>

fun to_hover :: "event \<Rightarrow> bool" where
  "to_hover (UpdateConfig options) = (opt_triggerType options = Some ''hover'')"
| "to_hover ev = False"

text \<open>
  What holds of every state of a controller in click mode: every rendered item has
  click handlers only, element numbers are issued in order, no timer is armed, and at
  most one submenu of the rendered tree is open.
\<close>

definition click_inv :: "MenuEngine \<Rightarrow> bool" where
  "click_inv s \<longleftrightarrow>
     triggerType (config s) = ''click'' \<and>
     (\<forall>e \<in> set (rendered s). el_triggerType e = ''click'' \<and> el_id e < next_element s) \<and>
     (\<forall>i \<in> expanded s. i < next_element s) \<and>
     timers s = [] \<and>
     (\<forall>i \<in> open_submenus s. \<forall>j \<in> open_submenus s. i = j)"

text \<open>
  Sample data for the evaluations: a normalized node with a given id, level and
  children, and the list item that \<^verbatim>\<open>render\<close> creates for it under a configuration.
\<close>

definition sample_node :: "string \<Rightarrow> int \<Rightarrow> menu_node list \<Rightarrow> menu_node" where
  "sample_node i lvl cs =
     MenuNode (JStr i) (JStr i) (JStr ''#'') (JBool False) JNull (JStr []) lvl cs"

definition item_of :: "menu_config \<Rightarrow> nat \<Rightarrow> string \<Rightarrow> submenu_el" where
  "item_of c n i =
     \<lparr>el_id = n, el_item = JStr i, el_triggerType = triggerType c,
      el_hoverDelay = hoverDelay c, el_closeDelay = closeDelay c\<rparr>"

section \<open>Flat-to-tree reconstruction (DataRetrieval.transformSharePointData)\<close>

text \<open>
  A SharePoint list item as the REST API returns it: \<^verbatim>\<open>Id\<close> is an integer, the other
  columns the code reads may be \<^verbatim>\<open>null\<close>. Numbers are integers.
\<close>

record sp_item =
  sp_Id :: int
  sp_Title :: string
  sp_Url :: "string option"
  sp_ParentId :: "int option"
  sp_Order :: "int option"
  sp_OpenInNewTab :: "bool option"

text \<open>
  The object that \<^verbatim>\<open>transformSharePointData\<close> creates for an item and stores in
  \<^verbatim>\<open>itemMap\<close>. The objects are shared: the same object is the value of its key in the
  map and an element of one \<^verbatim>\<open>children\<close> array or of \<^verbatim>\<open>rootItems\<close>. An object is
  therefore identified by its key, and an array of objects is a list of keys.
\<close>

record menu_item =
  mi_id :: int
  mi_title :: string
  mi_url :: string
  mi_parentId :: "int option"
  mi_order :: int
  mi_openInNewTab :: bool
  mi_children :: "int list"

text \<open>
  The object literal. \<^verbatim>\<open>||\<close> replaces a \<^verbatim>\<open>null\<close> and a falsy value alike: the empty
  URL, the parent reference 0.
\<close>

definition new_menu_item :: "sp_item \<Rightarrow> menu_item" where
  "new_menu_item item =
    \<lparr>mi_id = sp_Id item,
     mi_title = sp_Title item,
     mi_url = (case sp_Url item of None \<Rightarrow> ''#'' | Some u \<Rightarrow> if u = [] then ''#'' else u),
     mi_parentId = (case sp_ParentId item of None \<Rightarrow> None
                    | Some p \<Rightarrow> if p = 0 then None else Some p),
     mi_order = (case sp_Order item of None \<Rightarrow> 0 | Some n \<Rightarrow> n),
     mi_openInNewTab = (case sp_OpenInNewTab item of None \<Rightarrow> False | Some b \<Rightarrow> b),
     mi_children = []\<rparr>"

text \<open>
  A JavaScript \<^verbatim>\<open>Map\<close> keeps its keys in order of first insertion; setting a key that is
  present replaces the value in place. That is \<open>AList.update\<close> on an association list.
\<close>

type_synonym item_map = "(int \<times> menu_item) list"

definition build_itemMap :: "sp_item list \<Rightarrow> item_map" where
  "build_itemMap items =
    foldl (\<lambda>m item. AList.update (sp_Id item) (new_menu_item item) m) [] items"

record sp_heap =
  itemMap :: item_map
  rootItems :: "int list"

definition push_child :: "int \<Rightarrow> menu_item \<Rightarrow> menu_item" where
  "push_child c item = item\<lparr>mi_children := mi_children item @ [c]\<rparr>"

text \<open>
  The body of the second \<^verbatim>\<open>forEach\<close>, for the entry with key \<open>k\<close>:
  \<^verbatim>\<open>item.parentId && itemMap.has(item.parentId)\<close> decides between the parent's
  \<^verbatim>\<open>children\<close> and \<^verbatim>\<open>rootItems\<close>.
\<close>

definition link_item :: "sp_heap \<Rightarrow> int \<times> menu_item \<Rightarrow> sp_heap" where
  "link_item h entry =
    (case entry of (k, item) \<Rightarrow>
       (case mi_parentId item of
          None \<Rightarrow> h\<lparr>rootItems := rootItems h @ [k]\<rparr>
        | Some p \<Rightarrow>
            if p \<noteq> 0 \<and> map_of (itemMap h) p \<noteq> None
            then h\<lparr>itemMap := AList.map_entry p (push_child k) (itemMap h)\<rparr>
            else h\<lparr>rootItems := rootItems h @ [k]\<rparr>))"

definition link_items :: "item_map \<Rightarrow> sp_heap" where
  "link_items m = foldl link_item \<lparr>itemMap = m, rootItems = []\<rparr> m"

text \<open>
  The arrays that \<^verbatim>\<open>sortChildren\<close> is called on: \<^verbatim>\<open>rootItems\<close> and the
  \<^verbatim>\<open>children\<close> of an object.
\<close>

datatype array_ref = RootItems | ChildrenOf int

definition read_array :: "sp_heap \<Rightarrow> array_ref \<Rightarrow> int list" where
  "read_array h a =
    (case a of
       RootItems \<Rightarrow> rootItems h
     | ChildrenOf k \<Rightarrow> (case map_of (itemMap h) k of None \<Rightarrow> [] | Some item \<Rightarrow> mi_children item))"

definition write_array :: "sp_heap \<Rightarrow> array_ref \<Rightarrow> int list \<Rightarrow> sp_heap" where
  "write_array h a xs =
    (case a of
       RootItems \<Rightarrow> h\<lparr>rootItems := xs\<rparr>
     | ChildrenOf k \<Rightarrow>
         h\<lparr>itemMap := AList.map_entry k (\<lambda>item. item\<lparr>mi_children := xs\<rparr>) (itemMap h)\<rparr>)"

definition order_of :: "sp_heap \<Rightarrow> int \<Rightarrow> int" where
  "order_of h k = (case map_of (itemMap h) k of None \<Rightarrow> 0 | Some item \<Rightarrow> mi_order item)"

text \<open>\<^verbatim>\<open>array.forEach(f)\<close> for an \<open>f\<close> that changes the heap and may fail to return.\<close>

fun forEach :: "('a \<Rightarrow> 's \<Rightarrow> 's option) \<Rightarrow> 'a list \<Rightarrow> 's \<Rightarrow> 's option" where
  "forEach f [] s = Some s"
| "forEach f (x # xs) s = (case f x s of None \<Rightarrow> None | Some s' \<Rightarrow> forEach f xs s')"

text \<open>
  \<^verbatim>\<open>sortChildren(items)\<close>: \<^verbatim>\<open>Array.prototype.sort\<close> with the comparator
  \<^verbatim>\<open>a.order - b.order\<close> is a stable sort, ascending by \<^verbatim>\<open>order\<close>, in place; then the
  function calls itself on the \<^verbatim>\<open>children\<close> of each element that has any. The first
  argument bounds the depth of the calls: \<open>None\<close> means that the bound was too small.
\<close>

fun sortChildren :: "nat \<Rightarrow> array_ref \<Rightarrow> sp_heap \<Rightarrow> sp_heap option" where
  "sortChildren 0 a h = None"
| "sortChildren (Suc fuel) a h =
    (let h1 = write_array h a (sort_key (order_of h) (read_array h a)) in
     forEach (\<lambda>k h'. if read_array h' (ChildrenOf k) \<noteq> []
                      then sortChildren fuel (ChildrenOf k) h' else Some h')
       (read_array h1 a) h1)"

text \<open>
  The value that the caller receives, \<^verbatim>\<open>rootItems\<close>, is an array of objects whose
  \<^verbatim>\<open>children\<close> hold objects in turn. \<open>tree_at\<close> reads the tree below one object off
  the heap, again to a bounded depth.
\<close>

datatype sp_node =
  SpNode (sn_id: int) (sn_title: string) (sn_url: string) (sn_parentId: "int option")
    (sn_order: int) (sn_openInNewTab: bool) (sn_children: "sp_node list")

fun tree_at :: "nat \<Rightarrow> sp_heap \<Rightarrow> int \<Rightarrow> sp_node option" where
  "tree_at 0 h k = None"
| "tree_at (Suc fuel) h k =
    (case map_of (itemMap h) k of
       None \<Rightarrow> None
     | Some item \<Rightarrow>
         (case those (map (tree_at fuel h) (mi_children item)) of
            None \<Rightarrow> None
          | Some ts \<Rightarrow>
              Some (SpNode (mi_id item) (mi_title item) (mi_url item) (mi_parentId item)
                      (mi_order item) (mi_openInNewTab item) ts)))"

definition transformSharePointData :: "nat \<Rightarrow> sp_item list \<Rightarrow> sp_node list option" where
  "transformSharePointData fuel items =
    (case sortChildren fuel RootItems (link_items (build_itemMap items)) of
       None \<Rightarrow> None
     | Some h \<Rightarrow> those (map (tree_at fuel h) (rootItems h)))"

subsection \<open>getSharePointData\<close>

text \<open>
  The \<^verbatim>\<open>sharePoint\<close> section of the configuration, and the response of the injected
  \<^verbatim>\<open>fetch\<close> with the list \<^verbatim>\<open>result.d.results\<close> already parsed. \<^verbatim>\<open>fetch\<close> itself is a
  parameter: it rejects with an error or resolves with a response.
\<close>

record sharePoint_config =
  enabled :: bool
  listName :: string
  siteUrl :: string
  selectFields :: "string list"
  orderBy :: string
  ascending :: bool

record response =
  ok :: bool
  status :: string
  statusText :: string
  results :: "sp_item list"

definition apiUrl :: "sharePoint_config \<Rightarrow> string" where
  "apiUrl c =
    siteUrl c @ ''/_api/web/lists/getbytitle(''  @ [CHR 0x27] @ listName c @ [CHR 0x27] @
    '')/items?$select='' @ join '','' (selectFields c) @
    (if orderBy c \<noteq> []
     then ''&$orderby='' @ orderBy c @ '' '' @ (if ascending c then ''asc'' else ''desc'')
     else [])"

definition getSharePointData ::
  "nat \<Rightarrow> sharePoint_config \<Rightarrow> (string \<Rightarrow> error + response) \<Rightarrow> (error + sp_node list) option" where
  "getSharePointData fuel c fetch =
    (if \<not> enabled c \<or> siteUrl c = [] \<or> listName c = []
     then Some (Inl (Error ''SharePoint configuration is incomplete''))
     else case fetch (apiUrl c) of
       Inl e \<Rightarrow> Some (Inl e)
     | Inr r \<Rightarrow>
         if \<not> ok r
         then Some (Inl (Error (''SharePoint request failed: '' @ status r @ '' '' @ statusText r)))
         else map_option Inr (transformSharePointData fuel (results r)))"

subsection \<open>The parent relation of an item map\<close>

text \<open>
  The parent that the linking step resolves for a key, the sort key of a key, and the
  content an array is given by the linking step: the keys with that parent, in the order
  of the map.
\<close>

definition keys_of :: "item_map \<Rightarrow> int list" where
  "keys_of m = map fst m"

definition parent_of :: "item_map \<Rightarrow> int \<Rightarrow> int option" where
  "parent_of m k =
    (case map_of m k of
       None \<Rightarrow> None
     | Some item \<Rightarrow>
         (case mi_parentId item of
            None \<Rightarrow> None
          | Some p \<Rightarrow> if p \<noteq> 0 \<and> map_of m p \<noteq> None then Some p else None))"

definition ord_of :: "item_map \<Rightarrow> int \<Rightarrow> int" where
  "ord_of m k = (case map_of m k of None \<Rightarrow> 0 | Some item \<Rightarrow> mi_order item)"

definition linked :: "item_map \<Rightarrow> array_ref \<Rightarrow> int list" where
  "linked m a =
    (case a of
       RootItems \<Rightarrow> filter (\<lambda>k. parent_of m k = None) (keys_of m)
     | ChildrenOf p \<Rightarrow> filter (\<lambda>k. parent_of m k = Some p) (keys_of m))"

text \<open>
  \<open>ancestor par n k\<close> is the \<open>n\<close>-th ancestor of \<open>k\<close>, if the chain of parents is that
  long. A key is rooted within \<open>n\<close> steps when its chain ends, at a key without a
  resolved parent, after fewer than \<open>n\<close> parents; it lies on a cycle when it is its own
  ancestor.
\<close>

fun ancestor :: "(int \<Rightarrow> int option) \<Rightarrow> nat \<Rightarrow> int \<Rightarrow> int option" where
  "ancestor par 0 k = Some k"
| "ancestor par (Suc n) k = (case par k of None \<Rightarrow> None | Some p \<Rightarrow> ancestor par n p)"

fun rooted :: "(int \<Rightarrow> int option) \<Rightarrow> nat \<Rightarrow> int \<Rightarrow> bool" where
  "rooted par 0 k = False"
| "rooted par (Suc n) k = (case par k of None \<Rightarrow> True | Some p \<Rightarrow> rooted par n p)"

definition on_cycle :: "(int \<Rightarrow> int option) \<Rightarrow> int \<Rightarrow> bool" where
  "on_cycle par k \<longleftrightarrow> (\<exists>n. ancestor par (Suc n) k = Some k)"

text \<open>
  The depth bound that \<^verbatim>\<open>sortChildren\<close> needs on an array: the recursion below it is at
  most \<open>n\<close> calls deep.
\<close>

fun fits :: "item_map \<Rightarrow> nat \<Rightarrow> array_ref \<Rightarrow> bool" where
  "fits m 0 a = False"
| "fits m (Suc n) a =
    list_all (\<lambda>c. linked m (ChildrenOf c) = [] \<or> fits m n (ChildrenOf c)) (linked m a)"

subsection \<open>Trees\<close>

text \<open>
  The ids of a tree in preorder, and its nodes. A tree is well shaped for an item map
  when every node carries the fields of the object of its id and the children of every
  node are the keys linked to that id, stably sorted by order.
\<close>

fun tree_ids :: "sp_node \<Rightarrow> int list" where
  "tree_ids (SpNode i t u p ord' b cs) = i # concat (map tree_ids cs)"

fun tree_nodes :: "sp_node \<Rightarrow> sp_node list" where
  "tree_nodes (SpNode i t u p ord' b cs) =
     SpNode i t u p ord' b cs # concat (map tree_nodes cs)"

definition node_of :: "item_map \<Rightarrow> sp_node \<Rightarrow> bool" where
  "node_of m t \<longleftrightarrow>
     (case map_of m (sn_id t) of
        None \<Rightarrow> False
      | Some item \<Rightarrow>
          sn_title t = mi_title item \<and> sn_url t = mi_url item \<and>
          sn_parentId t = mi_parentId item \<and> sn_order t = mi_order item \<and>
          sn_openInNewTab t = mi_openInNewTab item \<and> mi_id item = sn_id t) \<and>
     map sn_id (sn_children t) = sort_key (ord_of m) (linked m (ChildrenOf (sn_id t)))"

definition shaped :: "item_map \<Rightarrow> sp_node \<Rightarrow> bool" where
  "shaped m t \<longleftrightarrow> list_all (node_of m) (tree_nodes t)"

definition forest_ids :: "sp_node list \<Rightarrow> int list" where
  "forest_ids ts = concat (map tree_ids ts)"

subsection \<open>The heap while the arrays are sorted\<close>

text \<open>
  An item map is well formed when its keys are distinct, every object carries its key
  as id and no object has children yet: the map that the first loop builds.
  \<open>strip\<close> forgets the children of the objects of a map.
\<close>

definition item_map_ok :: "item_map \<Rightarrow> bool" where
  "item_map_ok m \<longleftrightarrow>
     distinct (map fst m) \<and> list_all (\<lambda>(k, item). mi_id item = k \<and> mi_children item = []) m"

definition strip :: "item_map \<Rightarrow> item_map" where
  "strip m = map (\<lambda>(k, item). (k, item\<lparr>mi_children := []\<rparr>)) m"

text \<open>
  During the third phase the heap holds the objects of the map \<open>m\<close>, and each array
  holds what the linking step gave it, either as it was or stably sorted by order.
\<close>

definition sorted_at :: "item_map \<Rightarrow> sp_heap \<Rightarrow> array_ref \<Rightarrow> bool" where
  "sorted_at m h a \<longleftrightarrow> read_array h a = sort_key (ord_of m) (linked m a)"

definition heap_inv :: "item_map \<Rightarrow> sp_heap \<Rightarrow> bool" where
  "heap_inv m h \<longleftrightarrow>
     strip (itemMap h) = m \<and>
     (\<forall>a. read_array h a = linked m a \<or> sorted_at m h a)"

text \<open>The arrays that the calls of \<^verbatim>\<open>sortChildren\<close> started on array \<open>a\<close> reach.\<close>

inductive_set below :: "item_map \<Rightarrow> array_ref \<Rightarrow> array_ref set" for m :: item_map and a :: array_ref where
  self: "a \<in> below m a"
| child: "b \<in> below m a \<Longrightarrow> c \<in> set (linked m b) \<Longrightarrow> ChildrenOf c \<in> below m a"

subsection \<open>The records of the input\<close>

text \<open>
  The sort key of a record and the parent its reference resolves to within a
  collection: none when the reference is \<^verbatim>\<open>null\<close> or 0, or names no record.
\<close>

definition order_key :: "sp_item \<Rightarrow> int" where
  "order_key r = (case sp_Order r of None \<Rightarrow> 0 | Some n \<Rightarrow> n)"

definition resolved_parent :: "sp_item list \<Rightarrow> sp_item \<Rightarrow> int option" where
  "resolved_parent items r =
    (case sp_ParentId r of
       None \<Rightarrow> None
     | Some p \<Rightarrow> if p \<noteq> 0 \<and> p \<in> sp_Id ` set items then Some p else None)"

text \<open>
  The records of a collection with a given resolved parent, stably sorted by order, and
  the node that stands for a record.
\<close>

definition siblings :: "sp_item list \<Rightarrow> int option \<Rightarrow> sp_item list" where
  "siblings items p = sort_key order_key (filter (\<lambda>r. resolved_parent items r = p) items)"

definition node_for :: "sp_item \<Rightarrow> sp_node \<Rightarrow> bool" where
  "node_for r t \<longleftrightarrow>
     sn_id t = sp_Id r \<and> sn_title t = mi_title (new_menu_item r) \<and>
     sn_url t = mi_url (new_menu_item r) \<and> sn_parentId t = mi_parentId (new_menu_item r) \<and>
     sn_order t = order_key r \<and> sn_openInNewTab t = mi_openInNewTab (new_menu_item r)"

definition forest_nodes :: "sp_node list \<Rightarrow> sp_node list" where
  "forest_nodes ts = concat (map tree_nodes ts)"

text \<open>
  The record that the map holds for an id: a later record with the same id has
  replaced an earlier one.
\<close>

definition record_of :: "sp_item list \<Rightarrow> int \<Rightarrow> sp_item option" where
  "record_of items k =
    (let rs = filter (\<lambda>r. sp_Id r = k) items in if rs = [] then None else Some (last rs))"

text \<open>
  A collection is acyclic when the chain of resolved parents of every record ends; a
  chain that ends does so in fewer steps than there are records.
\<close>

definition acyclic_items :: "sp_item list \<Rightarrow> bool" where
  "acyclic_items items \<longleftrightarrow>
     list_all (\<lambda>r. rooted (parent_of (build_itemMap items)) (length items) (sp_Id r)) items"

text \<open>
  Sample data for the evaluations: a record with a given id, parent reference and order;
  a complete \<^verbatim>\<open>sharePoint\<close> section with the default fields and a given direction; and a
  \<^verbatim>\<open>fetch\<close> that answers every request with status 200 and a given list of records.
\<close>

definition sp_record :: "int \<Rightarrow> int option \<Rightarrow> int option \<Rightarrow> sp_item" where
  "sp_record i p v =
     \<lparr>sp_Id = i, sp_Title = ''t'', sp_Url = None, sp_ParentId = p, sp_Order = v,
      sp_OpenInNewTab = None\<rparr>"

definition sample_sharePoint :: "bool \<Rightarrow> sharePoint_config" where
  "sample_sharePoint asc =
     \<lparr>enabled = True, listName = ''Menu'', siteUrl = ''https://site'',
      selectFields = [''Title'', ''Url'', ''ParentId'', ''Order'', ''OpenInNewTab''],
      orderBy = ''Order'', ascending = asc\<rparr>"

definition respond_with :: "sp_item list \<Rightarrow> string \<Rightarrow> error + response" where
  "respond_with rs url = Inr \<lparr>ok = True, status = ''200'', statusText = ''OK'', results = rs\<rparr>"

section \<open>Properties of DataCache\<close>

lemma DataCache_set_lookup:
  "cache (DataCache_set c key d dur t0) key =
     Some \<lparr>data = d, expiry = t0 + or_duration dur (duration c)\<rparr>"
  by (simp add: DataCache_set_def)

text \<open>
  C6, as stated, with the expiry instant the time of the \<^verbatim>\<open>set\<close> plus the TTL passed to
  it: a TTL of 0 is falsy, so \<^verbatim>\<open>set\<close> stores the cache's default duration instead, and a
  \<^verbatim>\<open>get\<close> one millisecond after the \<^verbatim>\<open>set\<close>, which is strictly after that instant,
  still returns the payload.
\<close>

theorem C6_ttl_zero_counterexample:
  "(1::int) > 0 + 0 \<and>
   fst (DataCache_get (DataCache_set (DataCache_new None) ''k'' (42::int) (Some 0) 0) ''k'' 1)
     = Some 42"
  by (simp add: DataCache_get_def DataCache_set_def DataCache_new_def or_duration_def)

text \<open>
  C6, amended: the expiry instant of an entry is the time of the \<^verbatim>\<open>set\<close> plus the TTL
  passed to it, or plus the cache's default duration when the TTL is left out or is 0.
  For every key, payload and TTL, a \<^verbatim>\<open>get\<close> at or before that instant returns the
  stored payload and leaves the cache as it is; a \<^verbatim>\<open>get\<close> strictly after it returns
  \<^verbatim>\<open>null\<close> and removes the entry, so that the next \<^verbatim>\<open>get\<close> of the key, at any time,
  is a plain miss.
\<close>

theorem C6_get_after_set:
  "DataCache_get (DataCache_set c key d ttl t0) key t =
     (if t > t0 + or_duration ttl (duration c)
      then (None, DataCache_delete (DataCache_set c key d ttl t0) key)
      else (Some d, DataCache_set c key d ttl t0))
   \<and> DataCache_get (DataCache_delete (DataCache_set c key d ttl t0) key) key t' =
       (None, DataCache_delete (DataCache_set c key d ttl t0) key)"
  by (simp add: DataCache_get_def DataCache_set_def DataCache_delete_def)

section \<open>Properties of MenuConfig\<close>

lemma validation_errors_layers:
  "num_less (ToNumber conv (layers c)) (Num 1) \<or> num_less (Num 3) (ToNumber conv (layers c)) \<Longrightarrow>
     validation_errors conv c \<noteq> []"
  by (simp add: validation_errors_def js_less_def js_greater_def)

lemma validation_errors_none:
  "validation_errors conv c = [] \<longleftrightarrow>
     (\<not> num_less (ToNumber conv (layers c)) (Num 1) \<and>
      \<not> num_less (Num 3) (ToNumber conv (layers c)) \<and> other_options_valid c)"
  by (auto simp add: validation_errors_def other_options_valid_def js_less_def js_greater_def)

lemma MenuConfig_new_fails:
  "(\<exists>e. snd (MenuConfig_new conv opts) = Inl e) \<longleftrightarrow>
     validation_errors conv (mergeConfig DEFAULT_CONFIG opts) \<noteq> []"
  by (simp add: MenuConfig_new_def validateConfig_def Let_def)

lemma MenuConfig_new_succeeds:
  "validation_errors conv (mergeConfig DEFAULT_CONFIG opts) = [] \<Longrightarrow>
     MenuConfig_new conv opts = ([], Inr (mergeConfig DEFAULT_CONFIG opts))"
  by (simp add: MenuConfig_new_def validateConfig_def Let_def)

lemma MenuConfig_new_result:
  "MenuConfig_new conv opts = (out, Inr c) \<Longrightarrow>
     c = mergeConfig DEFAULT_CONFIG opts \<and> validation_errors conv c = [] \<and> out = []"
  by (auto simp add: MenuConfig_new_def validateConfig_def Let_def split: if_splits)

text \<open>
  What the constructor of \<^verbatim>\<open>MenuConfig\<close> does with \<^verbatim>\<open>layers\<close>, for every value of it: when
  the number that \<^verbatim>\<open>layers\<close> converts to is below 1 or above 3 the constructor throws,
  whatever the other options are; when the other options are valid it throws exactly then,
  and otherwise returns the merged configuration with nothing logged. So for a
  \<^verbatim>\<open>layers\<close> that is a number other than \<^verbatim>\<open>NaN\<close> construction fails exactly when it lies
  outside 1 to 3, and for a \<^verbatim>\<open>layers\<close> that converts to \<^verbatim>\<open>NaN\<close> it succeeds.
\<close>

lemma MenuConfig_new_layers:
  fixes opts :: menu_options and conv :: "js \<Rightarrow> number"
  defines "c \<equiv> mergeConfig DEFAULT_CONFIG opts"
  defines "n \<equiv> ToNumber conv (layers (mergeConfig DEFAULT_CONFIG opts))"
  shows "(num_less n (Num 1) \<or> num_less (Num 3) n \<longrightarrow>
            (\<exists>e. snd (MenuConfig_new conv opts) = Inl e))
       \<and> (other_options_valid c \<longrightarrow>
            ((\<exists>e. snd (MenuConfig_new conv opts) = Inl e) \<longleftrightarrow>
             (num_less n (Num 1) \<or> num_less (Num 3) n)))
       \<and> (other_options_valid c \<and> \<not> num_less n (Num 1) \<and> \<not> num_less (Num 3) n \<longrightarrow>
            MenuConfig_new conv opts = ([], Inr c))
       \<and> (\<forall>r. layers c = JNum (Num r) \<and> (r < 1 \<or> 3 < r) \<longrightarrow>
            (\<exists>e. snd (MenuConfig_new conv opts) = Inl e))
       \<and> (\<forall>r. layers c = JNum (Num r) \<and> other_options_valid c \<longrightarrow>
            ((\<exists>e. snd (MenuConfig_new conv opts) = Inl e) \<longleftrightarrow> (r < 1 \<or> 3 < r)))
       \<and> (other_options_valid c \<and> layers c \<in> {JNum (Num 1), JNum (Num 2), JNum (Num 3)} \<longrightarrow>
            MenuConfig_new conv opts = ([], Inr c))
       \<and> (other_options_valid c \<and> n = NaN \<longrightarrow> MenuConfig_new conv opts = ([], Inr c))"
proof -
  have fails: "\<exists>e. snd (MenuConfig_new conv opts) = Inl e"
    if "num_less n (Num 1) \<or> num_less (Num 3) n"
    using that unfolding n_def MenuConfig_new_fails by (rule validation_errors_layers)
  have iff: "(\<exists>e. snd (MenuConfig_new conv opts) = Inl e) \<longleftrightarrow>
             (num_less n (Num 1) \<or> num_less (Num 3) n)" if "other_options_valid c"
    using that unfolding MenuConfig_new_fails c_def n_def
    by (auto simp add: validation_errors_none)
  have ok: "MenuConfig_new conv opts = ([], Inr c)"
    if "other_options_valid c \<and> \<not> num_less n (Num 1) \<and> \<not> num_less (Num 3) n"
  proof -
    from that have "validation_errors conv (mergeConfig DEFAULT_CONFIG opts) = []"
      unfolding c_def n_def by (simp add: validation_errors_none)
    then show ?thesis unfolding c_def by (rule MenuConfig_new_succeeds)
  qed
  have num: "n = Num r" if "layers c = JNum (Num r)" for r
    using that unfolding n_def c_def by simp
  have c4: "\<exists>e. snd (MenuConfig_new conv opts) = Inl e"
    if "layers c = JNum (Num r) \<and> (r < 1 \<or> 3 < r)" for r
    using that num [of r] by (intro fails) auto
  have c5: "(\<exists>e. snd (MenuConfig_new conv opts) = Inl e) \<longleftrightarrow> (r < 1 \<or> 3 < r)"
    if "layers c = JNum (Num r) \<and> other_options_valid c" for r
    using that num [of r] iff by simp
  have c6: "MenuConfig_new conv opts = ([], Inr c)"
    if "other_options_valid c \<and> layers c \<in> {JNum (Num 1), JNum (Num 2), JNum (Num 3)}"
  proof -
    from that have "n = Num 1 \<or> n = Num 2 \<or> n = Num 3"
      using num by auto
    then have "\<not> num_less n (Num 1) \<and> \<not> num_less (Num 3) n" by auto
    then show ?thesis using that by (intro ok) simp
  qed
  have c7: "MenuConfig_new conv opts = ([], Inr c)" if "other_options_valid c \<and> n = NaN"
    using that by (intro ok) simp
  from fails iff ok c4 c5 c6 c7 show ?thesis by blast
qed

text \<open>
  C8, at a failing input: the options \<^verbatim>\<open>{layers: NaN}\<close>. \<^verbatim>\<open>NaN\<close> is a number that does
  not lie in 1 to 3; \<^verbatim>\<open>mergeConfig\<close> copies it over the default, \<^verbatim>\<open>layers < 1\<close> and
  \<^verbatim>\<open>layers > 3\<close> are both false for it, so the error \<^verbatim>\<open>layers must be between 1 and 3\<close> is
  not collected and the constructor returns the instance with nothing logged. The same
  happens for an own key \<^verbatim>\<open>layers\<close> whose value is \<^verbatim>\<open>undefined\<close> and for the text
  \<^verbatim>\<open>abc\<close>, which both convert to \<^verbatim>\<open>NaN\<close>. For 0 and for 4 the constructor logs and
  throws, and for 2 it returns the instance.
\<close>

theorem C8_layers_NaN_accepted:
  "\<not> in_range_1_3 (JNum NaN)
   \<and> MenuConfig_new (\<lambda>v. NaN) (no_options\<lparr>opt_layers := Some (JNum NaN)\<rparr>)
       = ([], Inr (DEFAULT_CONFIG\<lparr>layers := JNum NaN\<rparr>))
   \<and> \<not> in_range_1_3 JUndefined
   \<and> MenuConfig_new (\<lambda>v. NaN) (no_options\<lparr>opt_layers := Some JUndefined\<rparr>)
       = ([], Inr (DEFAULT_CONFIG\<lparr>layers := JUndefined\<rparr>))
   \<and> \<not> in_range_1_3 (JStr ''abc'')
   \<and> MenuConfig_new (\<lambda>v. NaN) (no_options\<lparr>opt_layers := Some (JStr ''abc'')\<rparr>)
       = ([], Inr (DEFAULT_CONFIG\<lparr>layers := JStr ''abc''\<rparr>))
   \<and> MenuConfig_new (\<lambda>v. NaN) (no_options\<lparr>opt_layers := Some (JNum (Num 0))\<rparr>)
       = ([ConsoleError ''Menu Configuration Errors: layers must be between 1 and 3''],
          Inl (Error ''Invalid menu configuration: layers must be between 1 and 3''))
   \<and> MenuConfig_new (\<lambda>v. NaN) (no_options\<lparr>opt_layers := Some (JNum (Num 4))\<rparr>)
       = ([ConsoleError ''Menu Configuration Errors: layers must be between 1 and 3''],
          Inl (Error ''Invalid menu configuration: layers must be between 1 and 3''))
   \<and> in_range_1_3 (JNum (Num 2))
   \<and> MenuConfig_new (\<lambda>v. NaN) (no_options\<lparr>opt_layers := Some (JNum (Num 2))\<rparr>)
       = ([], Inr (DEFAULT_CONFIG\<lparr>layers := JNum (Num 2)\<rparr>))"
  by (simp add: MenuConfig_new_def validateConfig_def validation_errors_def mergeConfig_def
      override_def no_options_def DEFAULT_CONFIG_def js_less_def js_greater_def Let_def)

section \<open>Properties of normalization\<close>

lemma normalizeItem_at_limit:
  "\<not> level < maxLayers \<Longrightarrow> normalizeItem rnd maxLayers item level k = normalized rnd item level k"
  by (subst normalizeItem.simps) (simp split: sum.splits prod.splits)

lemma normalized_children:
  "normalized rnd item level k = Inr (node, k') \<Longrightarrow> node_children node = [] \<and> node_level node = level"
  by (auto simp add: normalized_def Let_def split: sum.splits prod.splits if_splits)

lemma normalized_total:
  "item \<noteq> JNull \<Longrightarrow> item \<noteq> JUndefined \<Longrightarrow> \<exists>node k'. normalized rnd item level k = Inr (node, k')"
  by (cases item) (auto simp add: normalized_def Let_def split: prod.splits)

lemma normalized_fails:
  "item = JNull \<or> item = JUndefined \<Longrightarrow> \<exists>e. normalized rnd item level k = Inl e"
  by (auto simp add: normalized_def)

lemma childless_normalized:
  "normalized rnd item level k = Inr (node, k') \<Longrightarrow> childless node = node"
  by (cases node) (auto simp add: normalized_def childless_def Let_def split: sum.splits prod.splits if_splits)

lemma map_throwing_nth:
  "map_throwing f xs s = Inr (ys, s') \<Longrightarrow>
     length ys = length xs \<and> (\<forall>j < length xs. \<exists>sj sj'. f (xs ! j) sj = Inr (ys ! j, sj'))"
proof (induction xs arbitrary: s ys)
  case Nil
  then show ?case by simp
next
  case (Cons x xs)
  from Cons.prems obtain y s1 ys' where
    fx: "f x s = Inr (y, s1)" and rest: "map_throwing f xs s1 = Inr (ys', s')" and ys: "ys = y # ys'"
    by (auto split: sum.splits prod.splits)
  from Cons.IH [OF rest] have len: "length ys' = length xs"
    and nth: "\<forall>j < length xs. \<exists>sj sj'. f (xs ! j) sj = Inr (ys' ! j, sj')" by simp_all
  have "\<exists>sj sj'. f ((x # xs) ! j) sj = Inr (ys ! j, sj')" if "j < length (x # xs)" for j
  proof (cases j)
    case 0
    then show ?thesis using fx ys by auto
  next
    case (Suc i)
    then show ?thesis using nth that ys by auto
  qed
  then show ?case using len ys by simp
qed

lemma map_throwing_total:
  "(\<And>x s. x \<in> set xs \<Longrightarrow> \<exists>y s'. f x s = Inr (y, s')) \<Longrightarrow>
     \<exists>ys s'. map_throwing f xs s = Inr (ys, s')"
proof (induction xs arbitrary: s)
  case Nil
  then show ?case by simp
next
  case (Cons x xs)
  from Cons.prems [of x s] obtain y s1 where fx: "f x s = Inr (y, s1)" by auto
  from Cons.IH [of s1] Cons.prems obtain ys s' where "map_throwing f xs s1 = Inr (ys, s')"
    by auto
  then show ?case using fx by simp
qed


lemma normalizeItem_children:
  assumes "normalizeItem rnd maxLayers item level k = Inr (node, k')"
  shows "(\<exists>k1. normalized rnd item level k = Inr (childless node, k1)) \<and>
         (if descends maxLayers item level
          then length (node_children node) = length (elements (js_prop item ''children'')) \<and>
               (\<forall>j < length (elements (js_prop item ''children'')). \<exists>kj kj'.
                  normalizeItem rnd maxLayers (elements (js_prop item ''children'') ! j) (level + 1) kj
                    = Inr (node_children node ! j, kj'))
          else node_children node = [])"
proof -
  from assms obtain n0 k1 where n0: "normalized rnd item level k = Inr (n0, k1)"
    by (subst (asm) normalizeItem.simps) (auto split: sum.splits prod.splits)
  have n0c: "childless n0 = n0" "node_children n0 = []"
    using childless_normalized [OF n0] normalized_children [OF n0] by simp_all
  show ?thesis
  proof (cases "descends maxLayers item level")
    case False
    then have "node = n0" using assms n0
      by (subst (asm) normalizeItem.simps) (auto simp add: descends_def split: sum.splits prod.splits)
    then show ?thesis using n0 n0c False by simp
  next
    case True
    then obtain cs where
      cs: "map_throwing (\<lambda>child. normalizeItem rnd maxLayers child (level + 1))
             (elements (js_prop item ''children'')) k1 = Inr (cs, k')"
      and node: "node = MenuNode (node_id n0) (node_title n0) (node_url n0)
                          (node_openInNewTab n0) (node_icon n0) (node_cssClass n0)
                          (node_level n0) cs"
      using assms n0
      by (subst (asm) normalizeItem.simps) (auto simp add: descends_def split: sum.splits prod.splits)
    have "childless node = n0"
      using node n0c(2) by (cases n0) (simp add: childless_def)
    then show ?thesis using n0 True node map_throwing_nth [OF cs] by simp
  qed
qed

lemma readable_returns:
  "readable maxLayers item level \<Longrightarrow>
     \<exists>node k'. normalizeItem rnd maxLayers item level k = Inr (node, k')"
proof (induction maxLayers item level arbitrary: k rule: readable.induct)
  case (1 maxLayers item level)
  from "1.prems" have nn: "item \<noteq> JNull" "item \<noteq> JUndefined"
    by (subst (asm) readable.simps, simp)+
  then obtain n0 k1 where n0: "normalized rnd item level k = Inr (n0, k1)"
    using normalized_total by blast
  show ?case
  proof (cases "level < maxLayers \<and> truthy (js_prop item ''children'') \<and> isArray (js_prop item ''children'')")
    case False
    then show ?thesis using n0
      by (subst normalizeItem.simps) auto
  next
    case True
    then have all: "list_all (\<lambda>child. readable maxLayers child (level + 1))
             (elements (js_prop item ''children''))"
      using "1.prems" by (subst (asm) readable.simps) simp
    have "\<exists>ys s'. map_throwing (\<lambda>child. normalizeItem rnd maxLayers child (level + 1))
             (elements (js_prop item ''children'')) k1 = Inr (ys, s')"
    proof (rule map_throwing_total)
      fix x s
      assume x: "x \<in> set (elements (js_prop item ''children''))"
      then have "readable maxLayers x (level + 1)" using all by (simp add: list_all_iff)
      then show "\<exists>y s'. normalizeItem rnd maxLayers x (level + 1) s = Inr (y, s')"
        using "1.IH" [OF True x] by blast
    qed
    then show ?thesis using n0 True
      by (subst normalizeItem.simps) auto
  qed
qed

lemma returns_readable:
  "normalizeItem rnd maxLayers item level k = Inr (node, k') \<Longrightarrow> readable maxLayers item level"
proof (induction rnd maxLayers item level k arbitrary: node k' rule: normalizeItem.induct)
  case (1 rnd maxLayers item level k)
  from "1.prems" obtain n0 k1 where n0: "normalized rnd item level k = Inr (n0, k1)"
    by (subst (asm) normalizeItem.simps) (auto split: sum.splits prod.splits)
  then have nn: "item \<noteq> JNull" "item \<noteq> JUndefined"
    using normalized_fails [of item rnd level k] by auto
  show ?case
  proof (cases "level < maxLayers \<and> truthy (js_prop item ''children'') \<and> isArray (js_prop item ''children'')")
    case False
    then show ?thesis using nn by (subst readable.simps) auto
  next
    case True
    then have d: "descends maxLayers item level" by (simp add: descends_def)
    have "readable maxLayers x (level + 1)" if x: "x \<in> set (elements (js_prop item ''children''))" for x
    proof -
      from x obtain j where j: "j < length (elements (js_prop item ''children''))"
        "elements (js_prop item ''children'') ! j = x" by (auto simp add: in_set_conv_nth)
      with normalizeItem_children [OF "1.prems"] d obtain kj c kj' where
        "normalizeItem rnd maxLayers x (level + 1) kj = Inr (c, kj')" by auto
      then show ?thesis using "1.IH" [OF n0 refl True] by blast
    qed
    then show ?thesis using nn True by (subst readable.simps) (simp add: list_all_iff)
  qed
qed

lemma map_throwing_all:
  assumes "map_throwing f xs s = Inr (ys, s')"
    and "\<And>x s y s'. x \<in> set xs \<Longrightarrow> f x s = Inr (y, s') \<Longrightarrow> P y"
  shows "list_all P ys"
  using assms
proof (induction xs arbitrary: s ys)
  case Nil
  then show ?case by simp
next
  case (Cons x xs)
  from Cons.prems(1) obtain y s1 ys' where
    fx: "f x s = Inr (y, s1)" and rest: "map_throwing f xs s1 = Inr (ys', s')" and ys: "ys = y # ys'"
    by (auto split: sum.splits prod.splits)
  have "P y" using Cons.prems(2) [of x s y s1] fx by simp
  moreover have "list_all P ys'"
    using Cons.IH [OF rest] Cons.prems(2) by auto
  ultimately show ?case using ys by simp
qed

lemma normalizeItem_shape:
  "normalizeItem rnd maxLayers item level k = Inr (node, k') \<Longrightarrow>
     levels_from level node \<and> truncated maxLayers node"
proof (induction rnd maxLayers item level k arbitrary: node k' rule: normalizeItem.induct)
  case (1 rnd maxLayers item level k)
  from "1.prems" obtain n0 k1 where n0: "normalized rnd item level k = Inr (n0, k1)"
    by (subst (asm) normalizeItem.simps) (auto split: sum.splits prod.splits)
  have n0c: "node_children n0 = []" "node_level n0 = level"
    using normalized_children [OF n0] by simp_all
  show ?case
  proof (cases "level < maxLayers \<and> truthy (js_prop item ''children'') \<and> isArray (js_prop item ''children'')")
    case False
    then have "node = n0" using "1.prems" n0
      by (subst (asm) normalizeItem.simps) (auto split: sum.splits prod.splits)
    then show ?thesis using n0c False
      by (cases n0) auto
  next
    case True
    then obtain cs where
      cs: "map_throwing (\<lambda>child. normalizeItem rnd maxLayers child (level + 1))
             (elements (js_prop item ''children'')) k1 = Inr (cs, k')"
      and node: "node = MenuNode (node_id n0) (node_title n0) (node_url n0)
                          (node_openInNewTab n0) (node_icon n0) (node_cssClass n0)
                          (node_level n0) cs"
      using "1.prems" n0
      by (subst (asm) normalizeItem.simps) (auto split: sum.splits prod.splits)
    have "list_all (\<lambda>c. levels_from (level + 1) c \<and> truncated maxLayers c) cs"
    proof (rule map_throwing_all [OF cs])
      fix x s y s'
      assume "x \<in> set (elements (js_prop item ''children''))"
        and "normalizeItem rnd maxLayers x (level + 1) s = Inr (y, s')"
      then show "levels_from (level + 1) y \<and> truncated maxLayers y"
        using "1.IH" [OF n0 refl] True by blast
    qed
    then show ?thesis using node n0c True
      by (simp add: list_all_iff)
  qed
qed

lemma shape_depth_two:
  assumes "levels_from 1 r" and "truncated 2 r"
  shows "node_level r = 1 \<and>
         (\<forall>c \<in> set (node_children r). node_level c = 2 \<and> node_children c = [])"
proof (cases r)
  case (MenuNode i t u b ic cl lvl cs)
  have "node_level c = 2 \<and> node_children c = []" if "c \<in> set cs" for c
  proof (cases c)
    case c: (MenuNode i' t' u' b' ic' cl' lvl' cs')
    from assms MenuNode that have "levels_from 2 c" "truncated 2 c"
      by (auto simp add: list_all_iff)
    then show ?thesis using c by auto
  qed
  then show ?thesis using assms MenuNode by auto
qed

lemma normalizeData_depth_two:
  assumes r: "list_all (\<lambda>item. readable 2 item 1) items"
  shows "\<exists>nodes k'. normalizeData rnd 2 (JArr items) k = ([], Inr (nodes, k')) \<and>
            length nodes = length items \<and>
            (\<forall>i < length items.
               (\<exists>ki ki'. normalized rnd (items ! i) 1 ki = Inr (childless (nodes ! i), ki')) \<and>
               (if truthy (js_prop (items ! i) ''children'') \<and>
                   isArray (js_prop (items ! i) ''children'')
                then length (node_children (nodes ! i))
                       = length (elements (js_prop (items ! i) ''children'')) \<and>
                     (\<forall>j < length (elements (js_prop (items ! i) ''children'')). \<exists>kj kj'.
                        normalized rnd (elements (js_prop (items ! i) ''children'') ! j) 2 kj
                          = Inr (node_children (nodes ! i) ! j, kj'))
                else node_children (nodes ! i) = []))"
proof -
  have "\<exists>ys s'. map_throwing (\<lambda>item. normalizeItem rnd 2 item 1) items k = Inr (ys, s')"
  proof (rule map_throwing_total)
    fix x s
    assume "x \<in> set items"
    then have "readable 2 x 1" using r by (simp add: list_all_iff)
    then show "\<exists>y s'. normalizeItem rnd 2 x 1 s = Inr (y, s')" by (rule readable_returns)
  qed
  then obtain nodes k' where
    m: "map_throwing (\<lambda>item. normalizeItem rnd 2 item 1) items k = Inr (nodes, k')" by blast
  have nd: "normalizeData rnd 2 (JArr items) k = ([], Inr (nodes, k'))"
    by (simp add: normalizeData_def m)
  from map_throwing_nth [OF m] have len: "length nodes = length items"
    and nth: "\<forall>j < length items. \<exists>sj sj'. normalizeItem rnd 2 (items ! j) 1 sj = Inr (nodes ! j, sj')"
    by simp_all
  have per: "(\<exists>ki ki'. normalized rnd (items ! i) 1 ki = Inr (childless (nodes ! i), ki')) \<and>
               (if truthy (js_prop (items ! i) ''children'') \<and>
                   isArray (js_prop (items ! i) ''children'')
                then length (node_children (nodes ! i))
                       = length (elements (js_prop (items ! i) ''children'')) \<and>
                     (\<forall>j < length (elements (js_prop (items ! i) ''children'')). \<exists>kj kj'.
                        normalized rnd (elements (js_prop (items ! i) ''children'') ! j) 2 kj
                          = Inr (node_children (nodes ! i) ! j, kj'))
                else node_children (nodes ! i) = [])"
    if i: "i < length items" for i
  proof -
    from nth i obtain ki ki' where
      ni: "normalizeItem rnd 2 (items ! i) 1 ki = Inr (nodes ! i, ki')" by blast
    have d: "descends 2 (items ! i) 1 \<longleftrightarrow>
        truthy (js_prop (items ! i) ''children'') \<and> isArray (js_prop (items ! i) ''children'')"
      by (simp add: descends_def)
    have lim: "normalizeItem rnd 2 x (1 + 1) kj = normalized rnd x 2 kj" for x kj
      using normalizeItem_at_limit [of 2 2 rnd x kj] by simp
    from normalizeItem_children [OF ni] show ?thesis
      unfolding d lim by (auto split: if_splits)
  qed
  from nd len per show ?thesis by blast
qed

text \<open>
  C7: \<^verbatim>\<open>normalizeItem\<close> descends into the \<^verbatim>\<open>children\<close> of an item exactly when the level
  is below the configured maximum and \<^verbatim>\<open>children\<close> is an array. At a level that is not
  below the maximum it returns the normalized record with its empty \<^verbatim>\<open>children\<close> and
  never looks at the item's children, so whatever they hold they raise nothing; unless the
  item itself is \<^verbatim>\<open>null\<close> or \<^verbatim>\<open>undefined\<close> the call succeeds. In general the call
  succeeds exactly when the item and the elements it descends into are neither \<^verbatim>\<open>null\<close>
  nor \<^verbatim>\<open>undefined\<close>; the node it returns carries the fields of the normalized record,
  and where it descends the node has one child for each element of \<^verbatim>\<open>children\<close>, in
  order, which is the normalization of that element one level down; where it does not
  descend the node has no children. In every normalized tree each node carries its own
  level and each node at or beyond the maximum has no children. With a maximum of 2,
  \<^verbatim>\<open>normalizeData\<close> on an array of readable items logs nothing and throws nothing; it
  returns one root for each item, at level 1, with one child at level 2 for each element
  of the item's \<^verbatim>\<open>children\<close>; each child is the normalized record of that element with
  an empty child sequence, whatever the element's own \<^verbatim>\<open>children\<close> hold.
\<close>

theorem C7_depth_limit:
  "(\<not> level < maxLayers \<longrightarrow>
      normalizeItem rnd maxLayers item level k = normalized rnd item level k \<and>
      (item \<noteq> JNull \<and> item \<noteq> JUndefined \<longrightarrow>
         (\<exists>node k'. normalizeItem rnd maxLayers item level k = Inr (node, k') \<and>
            node_children node = [])))
   \<and> (\<forall>node k'. normalizeItem rnd maxLayers item level k = Inr (node, k') \<longrightarrow>
         levels_from level node \<and> truncated maxLayers node)
   \<and> (\<forall>out nodes k'. normalizeData rnd 2 (JArr items) k = (out, Inr (nodes, k')) \<longrightarrow>
         out = [] \<and>
         (\<forall>r \<in> set nodes. node_level r = 1 \<and>
            (\<forall>c \<in> set (node_children r). node_level c = 2 \<and> node_children c = [])))
   \<and> ((\<exists>node k'. normalizeItem rnd maxLayers item level k = Inr (node, k')) \<longleftrightarrow>
         readable maxLayers item level)
   \<and> (\<forall>node k'. normalizeItem rnd maxLayers item level k = Inr (node, k') \<longrightarrow>
         (\<exists>k1. normalized rnd item level k = Inr (childless node, k1)) \<and>
         (if descends maxLayers item level
          then length (node_children node) = length (elements (js_prop item ''children'')) \<and>
               (\<forall>j < length (elements (js_prop item ''children'')). \<exists>kj kj'.
                  normalizeItem rnd maxLayers (elements (js_prop item ''children'') ! j)
                      (level + 1) kj
                    = Inr (node_children node ! j, kj'))
          else node_children node = []))
   \<and> (list_all (\<lambda>item. readable 2 item 1) items \<longrightarrow>
         (\<exists>nodes k'. normalizeData rnd 2 (JArr items) k = ([], Inr (nodes, k')) \<and>
            length nodes = length items \<and>
            (\<forall>i < length items.
               (\<exists>ki ki'. normalized rnd (items ! i) 1 ki = Inr (childless (nodes ! i), ki')) \<and>
               (if truthy (js_prop (items ! i) ''children'') \<and>
                   isArray (js_prop (items ! i) ''children'')
                then length (node_children (nodes ! i))
                       = length (elements (js_prop (items ! i) ''children'')) \<and>
                     (\<forall>j < length (elements (js_prop (items ! i) ''children'')). \<exists>kj kj'.
                        normalized rnd (elements (js_prop (items ! i) ''children'') ! j) 2 kj
                          = Inr (node_children (nodes ! i) ! j, kj'))
                else node_children (nodes ! i) = []))))"
proof (intro conjI impI allI)
  assume "\<not> level < maxLayers"
  then show "normalizeItem rnd maxLayers item level k = normalized rnd item level k"
    by (rule normalizeItem_at_limit)
next
  assume lim: "\<not> level < maxLayers" and "item \<noteq> JNull \<and> item \<noteq> JUndefined"
  then obtain node k' where n: "normalized rnd item level k = Inr (node, k')"
    using normalized_total by blast
  then show "\<exists>node k'. normalizeItem rnd maxLayers item level k = Inr (node, k') \<and>
      node_children node = []"
    using normalizeItem_at_limit [OF lim] normalized_children [OF n] by auto
next
  fix node k'
  assume "normalizeItem rnd maxLayers item level k = Inr (node, k')"
  then show "levels_from level node" "truncated maxLayers node"
    using normalizeItem_shape by blast+
next
  fix out nodes k'
  assume nd: "normalizeData rnd 2 (JArr items) k = (out, Inr (nodes, k'))"
  then show "out = []"
    by (simp add: normalizeData_def)
  from nd have "map_throwing (\<lambda>item. normalizeItem rnd 2 item 1) items k = Inr (nodes, k')"
    by (simp add: normalizeData_def)
  then have "list_all (\<lambda>r. levels_from 1 r \<and> truncated 2 r) nodes"
    by (rule map_throwing_all) (use normalizeItem_shape in blast)
  then show "\<forall>r \<in> set nodes. node_level r = 1 \<and>
      (\<forall>c \<in> set (node_children r). node_level c = 2 \<and> node_children c = [])"
    using shape_depth_two by (auto simp add: list_all_iff)
next
  show "(\<exists>node k'. normalizeItem rnd maxLayers item level k = Inr (node, k')) \<longleftrightarrow>
         readable maxLayers item level"
    using readable_returns returns_readable by blast
next
  fix node k'
  assume "normalizeItem rnd maxLayers item level k = Inr (node, k')"
  then show "\<exists>k1. normalized rnd item level k = Inr (childless node, k1)"
    and "if descends maxLayers item level
          then length (node_children node) = length (elements (js_prop item ''children'')) \<and>
               (\<forall>j < length (elements (js_prop item ''children'')). \<exists>kj kj'.
                  normalizeItem rnd maxLayers (elements (js_prop item ''children'') ! j)
                      (level + 1) kj
                    = Inr (node_children node ! j, kj'))
          else node_children node = []"
    using normalizeItem_children by blast+
next
  assume r: "list_all (\<lambda>item. readable 2 item 1) items"
  then show "\<exists>nodes k'. normalizeData rnd 2 (JArr items) k = ([], Inr (nodes, k')) \<and>
            length nodes = length items \<and>
            (\<forall>i < length items.
               (\<exists>ki ki'. normalized rnd (items ! i) 1 ki = Inr (childless (nodes ! i), ki')) \<and>
               (if truthy (js_prop (items ! i) ''children'') \<and>
                   isArray (js_prop (items ! i) ''children'')
                then length (node_children (nodes ! i))
                       = length (elements (js_prop (items ! i) ''children'')) \<and>
                     (\<forall>j < length (elements (js_prop (items ! i) ''children'')). \<exists>kj kj'.
                        normalized rnd (elements (js_prop (items ! i) ''children'') ! j) 2 kj
                          = Inr (node_children (nodes ! i) ! j, kj'))
                else node_children (nodes ! i) = []))"
    by (rule normalizeData_depth_two)
qed

text \<open>
  Witness for C7: one root with one child that has two grandchildren, one of them
  \<^verbatim>\<open>null\<close>, under a maximum of 2. The items are readable; the child is kept with an
  empty child sequence and its title; nothing is logged and nothing is thrown.
\<close>

theorem C7_depth_limit_witness:
  "normalizeData (\<lambda>n. ''r'') 2
     (JArr [JObj [(''id'', JStr ''a''), (''title'', JStr ''A''), (''children'',
        JArr [JObj [(''id'', JStr ''b''), (''label'', JStr ''B''), (''children'',
          JArr [JObj [(''id'', JStr ''c'')], JNull])]])]]) 0
   = ([], Inr ([MenuNode (JStr ''a'') (JStr ''A'') (JStr ''#'') (JBool False) JNull (JStr [])
                  1 [MenuNode (JStr ''b'') (JStr ''B'') (JStr ''#'') (JBool False) JNull
                       (JStr []) 2 []]], 0))
   \<and> \<not> (2::int) < 2
   \<and> normalizeItem (\<lambda>n. ''r'') 2
        (JObj [(''id'', JStr ''b''), (''label'', JStr ''B''), (''children'',
          JArr [JObj [(''id'', JStr ''c'')], JNull])]) 2 0
      = normalized (\<lambda>n. ''r'') (JObj [(''id'', JStr ''b''), (''label'', JStr ''B''),
          (''children'', JArr [JObj [(''id'', JStr ''c'')], JNull])]) 2 0
   \<and> list_all (\<lambda>item. readable 2 item 1)
        [JObj [(''id'', JStr ''a''), (''title'', JStr ''A''), (''children'',
          JArr [JObj [(''id'', JStr ''b''), (''label'', JStr ''B''), (''children'',
            JArr [JObj [(''id'', JStr ''c'')], JNull])]])]]
   \<and> (\<exists>nodes k'. normalizeData (\<lambda>n. ''r'') 2
          (JArr [JObj [(''id'', JStr ''a''), (''title'', JStr ''A''), (''children'',
             JArr [JObj [(''id'', JStr ''b''), (''label'', JStr ''B''), (''children'',
               JArr [JObj [(''id'', JStr ''c'')], JNull])]])]]) 0 = ([], Inr (nodes, k'))
        \<and> length nodes = 1)"
proof -
  define b where "b = JObj [(''id'', JStr ''b''), (''label'', JStr ''B''), (''children'',
          JArr [JObj [(''id'', JStr ''c'')], JNull])]"
  define a where "a = JObj [(''id'', JStr ''a''), (''title'', JStr ''A''), (''children'',
          JArr [b])]"
  have ev: "normalizeData (\<lambda>n. ''r'') 2 (JArr [a]) 0
   = ([], Inr ([MenuNode (JStr ''a'') (JStr ''A'') (JStr ''#'') (JBool False) JNull (JStr [])
                  1 [MenuNode (JStr ''b'') (JStr ''B'') (JStr ''#'') (JBool False) JNull
                       (JStr []) 2 []]], 0))"
    by (simp add: a_def b_def normalizeData_def normalizeItem.simps normalized_def js_prop_def
        js_or_def)
  have lim: "\<not> (2::int) < 2" by simp
  have rb: "readable 2 b 2"
    by (subst readable.simps) (simp add: b_def)
  have rd: "list_all (\<lambda>item. readable 2 item 1) [a]"
    using rb by (subst readable.simps) (simp add: a_def js_prop_def)
  from C7_depth_limit [where level = 2 and maxLayers = 2 and rnd = "\<lambda>n. ''r''" and k = 0
      and items = "[a]" and item = b] lim rd
  have eq: "normalizeItem (\<lambda>n. ''r'') 2 b 2 0 = normalized (\<lambda>n. ''r'') b 2 0"
    and ex: "\<exists>nodes k'. normalizeData (\<lambda>n. ''r'') 2 (JArr [a]) 0 = ([], Inr (nodes, k'))
        \<and> length nodes = length [a]"
    by blast+
  from ev lim eq rd ex show ?thesis
    unfolding a_def b_def by simp
qed



section \<open>Properties of MenuEngine\<close>

subsection \<open>Timers\<close>

lemma fold_fire_fields:
  "timers (fold fire ts s) = timers s"
  "fired (fold fire ts s) = fired s @ map timer_id ts"
  "next_timer (fold fire ts s) = next_timer s"
  "hoverTimeout (fold fire ts s) = hoverTimeout s"
  "closeTimeout (fold fire ts s) = closeTimeout s"
  "clock (fold fire ts s) = clock s"
  by (induction ts arbitrary: s;
      simp add: fire_def openSubmenu_def closeSubmenu_def split: timer_callback.splits)+

lemma advance_fields:
  "timers (advance d s) = filter (\<lambda>t. \<not> due t \<le> clock s + int d) (timers s)"
  "fired (advance d s) =
     fired s @ map timer_id (sort_key due (filter (\<lambda>t. due t \<le> clock s + int d) (timers s)))"
  "next_timer (advance d s) = next_timer s"
  "hoverTimeout (advance d s) = hoverTimeout s"
  "closeTimeout (advance d s) = closeTimeout s"
  "clock (advance d s) = clock s + int d"
  by (simp_all add: advance_def Let_def fold_fire_fields)

lemma mouseenter_fields:
  assumes "el_triggerType e = ''hover''"
  shows "timers (mouseenter e s) =
           timers (clearTimeout (closeTimeout s) s) @
             [\<lparr>timer_id = next_timer s, due = clock s + max 0 (el_hoverDelay e),
               callback = OpenSubmenu (el_id e)\<rparr>]"
    and "fired (mouseenter e s) = fired s"
    and "next_timer (mouseenter e s) = Suc (next_timer s)"
    and "hoverTimeout (mouseenter e s) = Some (next_timer s)"
    and "clock (mouseenter e s) = clock s"
  using assms
  by (simp_all add: mouseenter_def setTimeout_def clearTimeout_def Let_def split: option.splits)

lemma mouseleave_fields:
  assumes "el_triggerType e = ''hover''"
  shows "timers (mouseleave e s) =
           timers (clearTimeout (hoverTimeout s) s) @
             [\<lparr>timer_id = next_timer s, due = clock s + max 0 (el_closeDelay e),
               callback = CloseSubmenu (el_id e)\<rparr>]"
    and "fired (mouseleave e s) = fired s"
    and "next_timer (mouseleave e s) = Suc (next_timer s)"
    and "hoverTimeout (mouseleave e s) = hoverTimeout s"
    and "clock (mouseleave e s) = clock s"
  using assms
  by (simp_all add: mouseleave_def setTimeout_def clearTimeout_def Let_def split: option.splits)

lemma not_hover_noop:
  "el_triggerType e \<noteq> ''hover'' \<Longrightarrow> mouseenter e s = s"
  "el_triggerType e \<noteq> ''hover'' \<Longrightarrow> mouseleave e s = s"
  by (simp_all add: mouseenter_def mouseleave_def)

lemma timers_clearTimeout:
  "timers (clearTimeout h s) = filter (\<lambda>t. Some (timer_id t) \<noteq> h) (timers s)"
  by (cases h) (auto simp add: clearTimeout_def intro: filter_cong)

lemma closeAll_fields:
  "timers (closeAllSubmenus s) = timers s"
  "fired (closeAllSubmenus s) = fired s"
  "next_timer (closeAllSubmenus s) = next_timer s"
  "hoverTimeout (closeAllSubmenus s) = hoverTimeout s"
  "closeTimeout (closeAllSubmenus s) = closeTimeout s"
  "clock (closeAllSubmenus s) = clock s"
  "listeners (closeAllSubmenus s) = listeners s"
  by (simp_all add: closeAllSubmenus_def)

lemma click_fields:
  "timers (click e s) = timers s"
  "fired (click e s) = fired s"
  "next_timer (click e s) = next_timer s"
  "hoverTimeout (click e s) = hoverTimeout s"
  "closeTimeout (click e s) = closeTimeout s"
  "clock (click e s) = clock s"
  "listeners (click e s) = listeners s"
  by (simp_all add: click_def closeAllSubmenus_def openSubmenu_def closeSubmenu_def)

lemma fold_keydown_fields:
  "timers (fold (on_document_keydown key) ls s) = timers s"
  "fired (fold (on_document_keydown key) ls s) = fired s"
  "next_timer (fold (on_document_keydown key) ls s) = next_timer s"
  "hoverTimeout (fold (on_document_keydown key) ls s) = hoverTimeout s"
  "closeTimeout (fold (on_document_keydown key) ls s) = closeTimeout s"
  "clock (fold (on_document_keydown key) ls s) = clock s"
  by (induction ls arbitrary: s;
      simp add: on_document_keydown_def closeAll_fields
        split: prod.splits event_target.splits handler.splits)+

lemma attach_fields:
  "timers (attachEventListeners s) = timers s"
  "fired (attachEventListeners s) = fired s"
  "next_timer (attachEventListeners s) = next_timer s"
  "hoverTimeout (attachEventListeners s) = hoverTimeout s"
  "closeTimeout (attachEventListeners s) = closeTimeout s"
  "clock (attachEventListeners s) = clock s"
  by (simp_all add: attachEventListeners_def addEventListener_def Let_def)

lemma other_event_fields:
  assumes "\<not> timer_event ev"
  shows "timers (step ev s) = timers s"
    and "fired (step ev s) = fired s"
    and "next_timer (step ev s) = next_timer s"
    and "hoverTimeout (step ev s) = hoverTimeout s"
    and "closeTimeout (step ev s) = closeTimeout s"
    and "clock (step ev s) = clock s"
  using assms
  by (cases ev;
      simp add: click_fields closeAll_fields fold_keydown_fields attach_fields
        toggle_click_def handleDocumentClick_def handleKeyDown_def handleResize_def
        init_begin_def init_resume_def refresh_begin_def refresh_resume_def destroy_def
        removeEventListener_def setLoading_def render_def renderError_def updateConfig_def
        Let_def
        split: sum.splits option.splits prod.splits)+

lemma elapsed_other: "\<not> timer_event ev \<Longrightarrow> elapsed (ev # es) = elapsed es"
  by (cases ev) simp_all

lemma elapsed_append: "elapsed (es @ es') = elapsed es + elapsed es'"
  by (induction es rule: elapsed.induct) simp_all

text \<open>A handle that is neither pending nor fired, and older than the next one, stays so.\<close>

lemma spent_step: "spent h s \<Longrightarrow> spent h (step ev s)"
proof (cases "timer_event ev")
  case False
  assume "spent h s"
  then show ?thesis by (simp add: spent_def other_event_fields [OF False])
next
  case True
  assume sp: "spent h s"
  from True show ?thesis
  proof (cases ev)
    case (MouseEnter e)
    show ?thesis
    proof (cases "el_triggerType e = ''hover''")
      case True
      then show ?thesis using sp MouseEnter
        by (auto simp add: spent_def mouseenter_fields timers_clearTimeout)
    next
      case False
      then show ?thesis using sp MouseEnter by (simp add: not_hover_noop)
    qed
  next
    case (MouseLeave e)
    show ?thesis
    proof (cases "el_triggerType e = ''hover''")
      case True
      then show ?thesis using sp MouseLeave
        by (auto simp add: spent_def mouseleave_fields timers_clearTimeout)
    next
      case False
      then show ?thesis using sp MouseLeave by (simp add: not_hover_noop)
    qed
  next
    case (Advance d)
    then show ?thesis using sp
      by (auto simp add: spent_def advance_fields)
  qed simp_all
qed

lemma spent_run: "spent h s \<Longrightarrow> spent h (run es s)"
  unfolding run_def by (induction es arbitrary: s) (simp_all add: spent_step)

lemma handles_fresh_step: "handles_fresh s \<Longrightarrow> handles_fresh (step ev s)"
proof (cases "timer_event ev")
  case False
  assume "handles_fresh s"
  then show ?thesis by (simp add: handles_fresh_def other_event_fields [OF False])
next
  case True
  assume hf: "handles_fresh s"
  from True show ?thesis
  proof (cases ev)
    case (MouseEnter e)
    show ?thesis
    proof (cases "el_triggerType e = ''hover''")
      case True
      then show ?thesis using hf MouseEnter
        by (auto simp add: handles_fresh_def mouseenter_fields timers_clearTimeout list_all_iff
            intro: less_SucI)
    next
      case False
      then show ?thesis using hf MouseEnter by (simp add: not_hover_noop)
    qed
  next
    case (MouseLeave e)
    show ?thesis
    proof (cases "el_triggerType e = ''hover''")
      case True
      then show ?thesis using hf MouseLeave
        by (auto simp add: handles_fresh_def mouseleave_fields timers_clearTimeout list_all_iff
            intro: less_SucI)
    next
      case False
      then show ?thesis using hf MouseLeave by (simp add: not_hover_noop)
    qed
  next
    case (Advance d)
    then show ?thesis using hf
      by (auto simp add: handles_fresh_def advance_fields list_all_iff)
  qed simp_all
qed

lemma handles_fresh_run: "handles_fresh s \<Longrightarrow> handles_fresh (run es s)"
  unfolding run_def by (induction es arbitrary: s) (simp_all add: handles_fresh_step)

lemma handles_fresh_new: "handles_fresh (fresh_engine conv c out w)"
  by (simp add: handles_fresh_def fresh_engine_def)

lemma fold_fire_expanded:
  "i \<notin> expanded s \<Longrightarrow> OpenSubmenu i \<notin> callback ` set ts \<Longrightarrow> i \<notin> expanded (fold fire ts s)"
proof (induction ts arbitrary: s)
  case Nil
  then show ?case by simp
next
  case (Cons t ts)
  have "i \<notin> expanded (fire t s)"
    using Cons.prems
    by (cases "callback t") (auto simp add: fire_def openSubmenu_def closeSubmenu_def)
  then show ?case using Cons by simp
qed

lemma hover_expanded:
  "expanded (mouseenter e s) = expanded s" "expanded (mouseleave e s) = expanded s"
  by (simp_all add: mouseenter_def mouseleave_def setTimeout_def clearTimeout_def Let_def
      split: option.splits)

lemma fold_keydown_expanded:
  "i \<notin> expanded s \<Longrightarrow> i \<notin> expanded (fold (on_document_keydown key) ls s)"
  by (induction ls arbitrary: s)
     (simp_all add: on_document_keydown_def closeAllSubmenus_def
        split: prod.splits event_target.splits handler.splits)

lemma attach_expanded: "expanded (attachEventListeners s) = expanded s"
  by (simp add: attachEventListeners_def addEventListener_def Let_def)

lemma click_expanded:
  "i \<notin> expanded s \<Longrightarrow> el_id e \<noteq> i \<Longrightarrow> i \<notin> expanded (click e s)"
  by (simp add: click_def closeAllSubmenus_def openSubmenu_def closeSubmenu_def)

lemma other_event_expanded:
  assumes "\<not> timer_event ev" and "\<not> clicks_on i ev" and "i \<notin> expanded s"
  shows "i \<notin> expanded (step ev s)"
proof (cases ev)
  case (Click e)
  then show ?thesis using assms by (simp add: click_expanded)
next
  case (KeyDown key inside active)
  have "i \<notin> expanded (handleKeyDown key active s)"
    using assms KeyDown
    by (cases active) (auto simp add: handleKeyDown_def click_expanded)
  then show ?thesis using assms KeyDown
    by (simp add: Let_def fold_keydown_expanded)
qed (use assms in \<open>simp_all add: toggle_click_def handleDocumentClick_def closeAllSubmenus_def
      handleResize_def init_begin_def init_resume_def refresh_begin_def refresh_resume_def
      destroy_def removeEventListener_def setLoading_def render_def renderError_def Let_def
      updateConfig_def attach_expanded split: sum.splits prod.splits\<close>)

text \<open>
  The state between a pointer-enter and the matching pointer-leave: the handle \<open>h\<close> of
  the open timer is still the stored one, the timer has not fired, and it is due at
  \<open>D\<close>, which the clock has not reached.
\<close>

lemma window_step:
  assumes "hoverTimeout s = Some h" and "h \<notin> set (fired s)" and "h < next_timer s"
    and "\<forall>t \<in> set (timers s). timer_id t = h \<longrightarrow> due t = D"
    and "clock s + int (elapsed [ev]) < D"
    and "\<not> is_mouseenter ev"
  shows "hoverTimeout (step ev s) = Some h \<and> h \<notin> set (fired (step ev s)) \<and>
         h < next_timer (step ev s) \<and>
         (\<forall>t \<in> set (timers (step ev s)). timer_id t = h \<longrightarrow> due t = D) \<and>
         clock (step ev s) = clock s + int (elapsed [ev])"
proof (cases "timer_event ev")
  case False
  then show ?thesis using assms
    by (simp add: other_event_fields [OF False] elapsed_other)
next
  case True
  then show ?thesis
  proof (cases ev)
    case (MouseEnter e)
    then show ?thesis using assms by simp
  next
    case (MouseLeave e)
    show ?thesis
    proof (cases "el_triggerType e = ''hover''")
      case True
      then show ?thesis using assms MouseLeave
        by (auto simp add: mouseleave_fields timers_clearTimeout)
    next
      case False
      then show ?thesis using assms MouseLeave by (simp add: not_hover_noop)
    qed
  next
    case (Advance d)
    then show ?thesis using assms
      by (auto simp add: advance_fields)
  qed simp_all
qed

lemma window_run:
  assumes "hoverTimeout s = Some h" and "h \<notin> set (fired s)" and "h < next_timer s"
    and "\<forall>t \<in> set (timers s). timer_id t = h \<longrightarrow> due t = D"
    and "clock s + int (elapsed es) < D"
    and "list_all (\<lambda>ev. \<not> is_mouseenter ev) es"
  shows "hoverTimeout (run es s) = Some h \<and> h \<notin> set (fired (run es s)) \<and>
         h < next_timer (run es s) \<and>
         (\<forall>t \<in> set (timers (run es s)). timer_id t = h \<longrightarrow> due t = D) \<and>
         clock (run es s) = clock s + int (elapsed es)"
  using assms
proof (induction es arbitrary: s)
  case Nil
  then show ?case by (simp add: run_def)
next
  case (Cons ev es)
  have el: "elapsed (ev # es) = elapsed [ev] + elapsed es"
    using elapsed_append [of "[ev]" es] by simp
  have st: "hoverTimeout (step ev s) = Some h \<and> h \<notin> set (fired (step ev s)) \<and>
         h < next_timer (step ev s) \<and>
         (\<forall>t \<in> set (timers (step ev s)). timer_id t = h \<longrightarrow> due t = D) \<and>
         clock (step ev s) = clock s + int (elapsed [ev])"
    using Cons.prems el by (intro window_step) auto
  have "hoverTimeout (run es (step ev s)) = Some h \<and> h \<notin> set (fired (run es (step ev s))) \<and>
         h < next_timer (run es (step ev s)) \<and>
         (\<forall>t \<in> set (timers (run es (step ev s))). timer_id t = h \<longrightarrow> due t = D) \<and>
         clock (run es (step ev s)) = clock (step ev s) + int (elapsed es)"
    using st Cons.prems el by (intro Cons.IH) auto
  then show ?case using st el by (simp add: run_def)
qed

text \<open>
  Within that window the submenu \<open>i\<close> stays closed when the only pending timer that
  would open it is the one with handle \<open>h\<close> and nothing clicks its trigger.
\<close>

lemma closed_step:
  assumes "h \<notin> set (fired (step ev s))" and "h < next_timer s"
    and "i \<notin> expanded s"
    and "\<forall>t \<in> set (timers s). callback t = OpenSubmenu i \<longrightarrow> timer_id t = h"
    and "\<not> is_mouseenter ev" and "\<not> clicks_on i ev"
  shows "i \<notin> expanded (step ev s) \<and>
         (\<forall>t \<in> set (timers (step ev s)). callback t = OpenSubmenu i \<longrightarrow> timer_id t = h)"
proof (cases "timer_event ev")
  case False
  then show ?thesis using assms
    by (simp add: other_event_fields [OF False] other_event_expanded)
next
  case True
  then show ?thesis
  proof (cases ev)
    case (MouseEnter e)
    then show ?thesis using assms by simp
  next
    case (MouseLeave e)
    show ?thesis
    proof (cases "el_triggerType e = ''hover''")
      case True
      then show ?thesis using assms MouseLeave
        by (auto simp add: mouseleave_fields timers_clearTimeout hover_expanded)
    next
      case False
      then show ?thesis using assms MouseLeave by (simp add: not_hover_noop)
    qed
  next
    case (Advance d)
    let ?now = "clock s + int d"
    let ?ts = "sort_key due (filter (\<lambda>t. due t \<le> ?now) (timers s))"
    have nf: "h \<notin> timer_id ` set ?ts"
      using assms(1) Advance by (auto simp add: advance_fields)
    have "OpenSubmenu i \<notin> callback ` set ?ts"
    proof
      assume "OpenSubmenu i \<in> callback ` set ?ts"
      then obtain t where t: "t \<in> set ?ts" "callback t = OpenSubmenu i" by force
      then have "t \<in> set (timers s)" by auto
      then have "timer_id t = h" using assms(4) t by blast
      then show False using nf t by force
    qed
    then have "i \<notin> expanded (advance d s)"
      using assms(3) by (simp add: advance_def Let_def fold_fire_expanded)
    then show ?thesis using assms Advance
      by (auto simp add: advance_fields)
  qed simp_all
qed

lemma run_Cons: "run (ev # es) s = run es (step ev s)"
  by (simp add: run_def)

lemma run_append: "run (es @ es') s = run es' (run es s)"
  by (simp add: run_def)

lemma run_Nil: "run [] s = s"
  by (simp add: run_def)

lemma closed_run:
  assumes "hoverTimeout s = Some h" and "h \<notin> set (fired s)" and "h < next_timer s"
    and "\<forall>t \<in> set (timers s). timer_id t = h \<longrightarrow> due t = D"
    and "clock s + int (elapsed es) < D"
    and "list_all (\<lambda>ev. \<not> is_mouseenter ev) es"
    and "i \<notin> expanded s"
    and "\<forall>t \<in> set (timers s). callback t = OpenSubmenu i \<longrightarrow> timer_id t = h"
    and "list_all (\<lambda>ev. \<not> clicks_on i ev) es"
  shows "i \<notin> expanded (run es s) \<and>
         (\<forall>t \<in> set (timers (run es s)). callback t = OpenSubmenu i \<longrightarrow> timer_id t = h)"
  using assms
proof (induction es arbitrary: s)
  case Nil
  then show ?case by (simp add: run_def)
next
  case (Cons ev es)
  have el: "elapsed (ev # es) = elapsed [ev] + elapsed es"
    using elapsed_append [of "[ev]" es] by simp
  have st: "hoverTimeout (step ev s) = Some h \<and> h \<notin> set (fired (step ev s)) \<and>
         h < next_timer (step ev s) \<and>
         (\<forall>t \<in> set (timers (step ev s)). timer_id t = h \<longrightarrow> due t = D) \<and>
         clock (step ev s) = clock s + int (elapsed [ev])"
    using Cons.prems el by (intro window_step) auto
  have cl: "i \<notin> expanded (step ev s) \<and>
         (\<forall>t \<in> set (timers (step ev s)). callback t = OpenSubmenu i \<longrightarrow> timer_id t = h)"
    using st Cons.prems by (intro closed_step) auto
  have "i \<notin> expanded (run es (step ev s)) \<and>
         (\<forall>t \<in> set (timers (run es (step ev s))). callback t = OpenSubmenu i \<longrightarrow> timer_id t = h)"
    using st cl Cons.prems el by (intro Cons.IH) auto
  then show ?case by (simp add: run_Cons)
qed


subsection \<open>Activation\<close>

lemma click_opens:
  assumes "activates e s" and "el_id e \<notin> expanded s"
  shows "click e s = openSubmenu (el_id e) (closeAllSubmenus s)"
    and "open_submenus (closeAllSubmenus s) = {}"
    and "e \<in> set (rendered s) \<Longrightarrow> open_submenus (click e s) = {el_id e}"
  using assms
  by (auto simp add: click_def open_submenus_def closeAllSubmenus_def openSubmenu_def)

lemma click_closes:
  assumes "activates e s" and "el_id e \<in> expanded s"
  shows "click e s = closeSubmenu (el_id e) s"
    and "open_submenus (click e s) = open_submenus s - {el_id e}"
  using assms
  by (auto simp add: click_def open_submenus_def closeSubmenu_def)

subsection \<open>Click mode\<close>

lemma click_inv_fresh: "triggerType c = ''click'' \<Longrightarrow> click_inv (fresh_engine conv c out w)"
  by (simp add: click_inv_def fresh_engine_def open_submenus_def)

lemma render_click_inv:
  assumes "click_inv s"
  shows "click_inv (attachEventListeners (render (s\<lparr>menuData := tree\<rparr>)))"
proof -
  let ?s' = "attachEventListeners (render (s\<lparr>menuData := tree\<rparr>))"
  have r: "rendered ?s' = map (\<lambda>(i, item). \<lparr>el_id = i, el_item = node_id item,
                            el_triggerType = triggerType (config s),
                            el_hoverDelay = hoverDelay (config s),
                            el_closeDelay = closeDelay (config s)\<rparr>)
           (enumerate (next_element s) (submenu_items (conversion s) (config s) tree))"
    and n: "next_element ?s' = next_element s + length (submenu_items (conversion s) (config s) tree)"
    and x: "expanded ?s' = expanded s" and t: "timers ?s' = timers s"
    and c: "config ?s' = config s"
    by (simp_all add: attachEventListeners_def addEventListener_def render_def Let_def)
  have ids: "el_id e \<ge> next_element s \<and> el_id e < next_element ?s' \<and> el_triggerType e = ''click''"
    if "e \<in> set (rendered ?s')" for e
    using that assms unfolding r n
    by (auto simp add: click_inv_def in_set_enumerate_eq)
  have "open_submenus ?s' = {}"
  proof -
    have "i \<notin> el_id ` set (rendered ?s')" if "i \<in> expanded s" for i
    proof
      assume "i \<in> el_id ` set (rendered ?s')"
      then obtain e where "e \<in> set (rendered ?s')" "el_id e = i" by auto
      then have "next_element s \<le> i" using ids by blast
      moreover have "i < next_element s" using that assms by (simp add: click_inv_def)
      ultimately show False by simp
    qed
    then show ?thesis unfolding open_submenus_def x by auto
  qed
  then show ?thesis
    using assms ids by (auto simp add: click_inv_def x t c n)
qed

lemma closeAll_click_inv: "click_inv s \<Longrightarrow> click_inv (closeAllSubmenus s)"
  by (auto simp add: click_inv_def closeAllSubmenus_def open_submenus_def)

lemma click_click_inv:
  assumes "click_inv s" and "e \<in> set (rendered s)"
  shows "click_inv (click e s)"
proof (cases "activates e s \<and> el_id e \<notin> expanded s")
  case True
  then have "open_submenus (click e s) = {el_id e}"
    using click_opens(3) assms by blast
  moreover have "rendered (click e s) = rendered s" "next_element (click e s) = next_element s"
    "config (click e s) = config s" "timers (click e s) = timers s"
    "expanded (click e s) \<subseteq> insert (el_id e) (expanded s)"
    by (auto simp add: click_def closeAllSubmenus_def openSubmenu_def closeSubmenu_def)
  ultimately show ?thesis using assms
    by (auto simp add: click_inv_def)
next
  case False
  then have "click e s = s \<or> click e s = closeSubmenu (el_id e) s"
    by (auto simp add: click_def)
  then show ?thesis using assms
    by (auto simp add: click_inv_def closeSubmenu_def open_submenus_def)
qed

lemma fold_keydown_click_inv:
  "click_inv s \<Longrightarrow> click_inv (fold (on_document_keydown key) ls s)"
  by (induction ls arbitrary: s)
     (simp_all add: on_document_keydown_def closeAll_click_inv
        split: prod.splits event_target.splits handler.splits)

lemma click_inv_same:
  assumes "click_inv s"
    and "config s' = config s" and "rendered s' = rendered s"
    and "next_element s' = next_element s" and "expanded s' \<subseteq> expanded s"
    and "timers s' = timers s"
  shows "click_inv s'"
proof -
  have sub: "open_submenus s' \<subseteq> open_submenus s"
    using assms(3,5) by (auto simp add: open_submenus_def)
  have "\<forall>i \<in> open_submenus s'. \<forall>j \<in> open_submenus s'. i = j"
    using assms(1) sub unfolding click_inv_def by (meson subsetD)
  moreover have "\<forall>i \<in> expanded s'. i < next_element s'"
    using assms(1,4,5) unfolding click_inv_def by (metis subsetD)
  ultimately show ?thesis
    using assms(1,2,3,4,6) by (simp add: click_inv_def)
qed

lemma click_inv_cleared:
  assumes "click_inv s"
    and "config s' = config s" and "rendered s' = []"
    and "next_element s' = next_element s" and "expanded s' \<subseteq> expanded s"
    and "timers s' = timers s"
  shows "click_inv s'"
proof -
  have "open_submenus s' = {}"
    using assms(3) by (simp add: open_submenus_def)
  moreover have "\<forall>i \<in> expanded s'. i < next_element s'"
    using assms(1,4,5) unfolding click_inv_def by (metis subsetD)
  ultimately show ?thesis
    using assms(1,2,3,4,6) by (simp add: click_inv_def)
qed

text \<open>
  \<^verbatim>\<open>updateConfig\<close> touches the configuration and the console only, and the configuration
  it stores has passed validation.
\<close>

lemma updateConfig_fields:
  "rendered (snd (updateConfig options s)) = rendered s"
  "expanded (snd (updateConfig options s)) = expanded s"
  "next_element (snd (updateConfig options s)) = next_element s"
  "timers (snd (updateConfig options s)) = timers s"
  "listeners (snd (updateConfig options s)) = listeners s"
  by (simp_all add: updateConfig_def split: prod.splits sum.splits)

lemma updateConfig_triggerType:
  assumes "triggerType (config s) = ''click''" and "opt_triggerType options \<noteq> Some ''hover''"
  shows "triggerType (config (snd (updateConfig options s))) = ''click''"
proof (cases "MenuConfig_new (conversion s) (spread (getAll (config s)) options)")
  case (Pair out r)
  show ?thesis
  proof (cases r)
    case (Inl e)
    then show ?thesis using Pair assms by (simp add: updateConfig_def)
  next
    case (Inr c)
    have eq: "MenuConfig_new (conversion s) (spread (getAll (config s)) options) = (out, Inr c)"
      using Pair Inr by simp
    from MenuConfig_new_result [OF eq]
    have c: "c = mergeConfig DEFAULT_CONFIG (spread (getAll (config s)) options)"
      and v: "validation_errors (conversion s) c = []"
      by blast+
    from v have "triggerType c = ''hover'' \<or> triggerType c = ''click''"
      by (simp add: validation_errors_none other_options_valid_def)
    moreover have "triggerType c \<noteq> ''hover''"
      using assms unfolding c
      by (cases "opt_triggerType options")
         (simp_all add: mergeConfig_def spread_def getAll_def later_def override_def)
    ultimately show ?thesis using Pair Inr by (simp add: updateConfig_def)
  qed
qed

lemma click_inv_step:
  assumes "click_inv s" and "dispatchable ev s" and "\<not> to_hover ev"
  shows "click_inv (step ev s)"
proof (cases ev)
  case (MouseEnter e)
  then show ?thesis using assms by (simp add: click_inv_def not_hover_noop)
next
  case (MouseLeave e)
  then show ?thesis using assms by (simp add: click_inv_def not_hover_noop)
next
  case (Click e)
  then show ?thesis using assms by (simp add: click_click_inv)
next
  case ToggleClick
  have "click_inv (toggle_click s)"
    by (rule click_inv_same [OF assms(1)]) (simp_all add: toggle_click_def)
  then show ?thesis using ToggleClick by simp
next
  case (DocumentClick inside)
  then show ?thesis using assms by (simp add: handleDocumentClick_def closeAll_click_inv)
next
  case (KeyDown key inside active)
  have "click_inv (handleKeyDown key active s)"
    using assms KeyDown by (cases active) (simp_all add: handleKeyDown_def click_click_inv)
  then show ?thesis using assms KeyDown by (simp add: Let_def fold_keydown_click_inv)
next
  case (Resize w)
  have "click_inv (s\<lparr>innerWidth := w\<rparr>)"
    by (rule click_inv_same [OF assms(1)]) simp_all
  moreover have "click_inv (handleResize (s\<lparr>innerWidth := w\<rparr>))"
    by (rule click_inv_same [OF assms(1)]) (simp_all add: handleResize_def)
  ultimately show ?thesis using Resize by (simp add: Let_def)
next
  case (Advance d)
  have t: "timers s = []" using assms by (simp add: click_inv_def)
  have "click_inv (advance d s)"
    by (rule click_inv_same [OF assms(1)]) (simp_all add: advance_def Let_def t)
  then show ?thesis using Advance by simp
next
  case Init
  have "click_inv (init_begin s)"
    by (rule click_inv_same [OF assms(1)]) (simp_all add: init_begin_def setLoading_def)
  then show ?thesis using Init by simp
next
  case (InitResume outcome)
  show ?thesis
  proof (cases outcome)
    case (Inl err)
    have "click_inv (snd (init_resume (Inl err) s))"
      by (rule click_inv_cleared [OF assms(1)])
         (simp_all add: init_resume_def setLoading_def renderError_def Let_def)
    then show ?thesis using assms InitResume Inl by simp
  next
    case (Inr tree)
    have "click_inv (s\<lparr>pending_init := pending_init s - 1\<rparr>)"
      by (rule click_inv_same [OF assms(1)]) simp_all
    from render_click_inv [OF this, of tree]
    have "click_inv (snd (init_resume (Inr tree) s))"
      by (rule click_inv_same) (simp_all add: init_resume_def setLoading_def Let_def)
    then show ?thesis using assms InitResume Inr by simp
  qed
next
  case Refresh
  have "click_inv (refresh_begin s)"
    by (rule click_inv_same [OF assms(1)]) (simp_all add: refresh_begin_def)
  then show ?thesis using Refresh by simp
next
  case (RefreshResume outcome)
  show ?thesis
  proof (cases outcome)
    case (Inl err)
    have "click_inv (snd (refresh_resume (Inl err) s))"
      by (rule click_inv_same [OF assms(1)]) (simp_all add: refresh_resume_def Let_def)
    then show ?thesis using assms RefreshResume Inl by simp
  next
    case (Inr tree)
    have "click_inv (s\<lparr>pending_refresh := pending_refresh s - 1\<rparr>)"
      by (rule click_inv_same [OF assms(1)]) simp_all
    from render_click_inv [OF this, of tree] show ?thesis using assms RefreshResume Inr
      by (simp add: refresh_resume_def Let_def)
  qed
next
  case Destroy
  have "click_inv (destroy s)"
    by (rule click_inv_cleared [OF assms(1)])
       (simp_all add: destroy_def removeEventListener_def Let_def)
  then show ?thesis using Destroy by simp
next
  case CloseAllSubmenus
  then show ?thesis using assms by (simp add: closeAll_click_inv)
next
  case (UpdateConfig options)
  have t: "triggerType (config (snd (updateConfig options s))) = ''click''"
    using assms UpdateConfig by (intro updateConfig_triggerType) (simp_all add: click_inv_def)
  have "click_inv (snd (updateConfig options s))"
    using assms(1) t unfolding click_inv_def open_submenus_def updateConfig_fields by simp
  then show ?thesis using UpdateConfig by simp
qed

lemma click_inv_run:
  "click_inv s \<Longrightarrow> well_dispatched es s \<Longrightarrow> list_all (\<lambda>ev. \<not> to_hover ev) es \<Longrightarrow>
     click_inv (run es s)"
  by (induction es arbitrary: s) (simp_all add: run_Nil run_Cons click_inv_step)

lemma click_mode_one_open:
  assumes "triggerType c = ''click''" and "well_dispatched es (fresh_engine conv c out w)"
    and "list_all (\<lambda>ev. \<not> to_hover ev) es"
  shows "card (open_submenus (run es (fresh_engine conv c out w))) \<le> 1"
proof -
  have "click_inv (run es (fresh_engine conv c out w))"
    using assms by (intro click_inv_run click_inv_fresh)
  then have one: "\<forall>i \<in> open_submenus (run es (fresh_engine conv c out w)).
      \<forall>j \<in> open_submenus (run es (fresh_engine conv c out w)). i = j"
    by (simp add: click_inv_def)
  show ?thesis
  proof (cases "open_submenus (run es (fresh_engine conv c out w)) = {}")
    case True
    then show ?thesis by simp
  next
    case False
    then obtain i where "i \<in> open_submenus (run es (fresh_engine conv c out w))" by blast
    then have "open_submenus (run es (fresh_engine conv c out w)) = {i}" using one by blast
    then show ?thesis by simp
  qed
qed

subsection \<open>Evaluating the controller\<close>

lemmas engine_eval =
  run_def fresh_engine_def init_begin_def init_resume_def setLoading_def render_def
  attachEventListeners_def addEventListener_def removeEventListener_def destroy_def
  submenu_items_def DEFAULT_CONFIG_def mouseenter_def mouseleave_def setTimeout_def
  clearTimeout_def advance_def fire_def openSubmenu_def closeSubmenu_def closeAllSubmenus_def
  click_def activates_def enumerate_eq_zip open_submenus_def Let_def sample_node_def item_of_def
  js_ge_def

lemmas config_eval =
  updateConfig_def MenuConfig_new_def validateConfig_def validation_errors_def mergeConfig_def
  spread_def getAll_def later_def override_def no_options_def js_less_def js_greater_def

text \<open>
  What \<^verbatim>\<open>destroy\<close> does remove: the three listeners registered with a bound method.
\<close>

lemma destroy_removes_bound_listeners:
  "(Document, ''click'', HandleDocumentClick) \<notin> set (listeners (destroy s))"
  "(Container, ''keydown'', HandleKeyDown) \<notin> set (listeners (destroy s))"
  "(Window, ''resize'', HandleResize) \<notin> set (listeners (destroy s))"
  by (simp_all add: destroy_def removeEventListener_def Let_def)

lemma destroy_keeps_timers: "timers (destroy s) = timers s"
  by (simp add: destroy_def removeEventListener_def Let_def)

text \<open>
  C3, at a failing input: a controller with the default configuration is initialized with
  one item that has a child, the pointer enters that item and \<^verbatim>\<open>destroy\<close> is called.
  The Escape listener, registered on the document as an arrow function that
  \<^verbatim>\<open>destroy\<close> cannot name, is still attached, alone; the hover-open timer is still
  pending, and when its delay has passed it runs and marks the trigger of the removed
  item as expanded.
\<close>

theorem C3_destroy_leaves_escape_listener_and_timer:
  "listeners (run [Init, InitResume (Inr [sample_node ''a'' 1 [sample_node ''b'' 2 []]]),
                   MouseEnter (item_of DEFAULT_CONFIG 0 ''a''), Destroy]
               (fresh_engine (\<lambda>v. NaN) DEFAULT_CONFIG [] 1024))
     = [(Document, ''keydown'', EscapeClosure 0)]
   \<and> timers (run [Init, InitResume (Inr [sample_node ''a'' 1 [sample_node ''b'' 2 []]]),
                  MouseEnter (item_of DEFAULT_CONFIG 0 ''a''), Destroy]
              (fresh_engine (\<lambda>v. NaN) DEFAULT_CONFIG [] 1024))
     = [\<lparr>timer_id = 0, due = 150, callback = OpenSubmenu 0\<rparr>]
   \<and> expanded (run [Init, InitResume (Inr [sample_node ''a'' 1 [sample_node ''b'' 2 []]]),
                    MouseEnter (item_of DEFAULT_CONFIG 0 ''a''), Destroy, Advance 150]
                (fresh_engine (\<lambda>v. NaN) DEFAULT_CONFIG [] 1024))
     = {0}"
  by (simp add: engine_eval)

text \<open>
  C4, as stated, at an interleaving of two list items: with the default configuration
  (hover mode, a delay of 150 ms) and a three-level menu, item \<open>p\<close> is rendered as
  element 1 and its child \<open>s\<close> as element 0. The pointer enters \<open>p\<close>, 10 ms later enters
  \<open>s\<close>, 10 ms later leaves \<open>s\<close> and \<open>p\<close>. No submenu is open then, and 20 ms is less than
  the delay; 130 ms later the submenu of \<open>p\<close> is open. The second pointer-enter has
  overwritten the only hover-open handle, so the pointer-leave of \<open>p\<close> cleared the timer
  of \<open>s\<close> once more and left the timer of \<open>p\<close> armed.
\<close>

theorem C4_shared_handle_counterexample:
  "rendered (run [Init, InitResume (Inr [sample_node ''p'' 1 [sample_node ''s'' 2
                    [sample_node ''t'' 3 []]]])]
               (fresh_engine (\<lambda>v. NaN) DEFAULT_CONFIG [] 1024))
     = [item_of DEFAULT_CONFIG 0 ''s'', item_of DEFAULT_CONFIG 1 ''p'']
   \<and> open_submenus (run [Init, InitResume (Inr [sample_node ''p'' 1 [sample_node ''s'' 2
                    [sample_node ''t'' 3 []]]]),
                  MouseEnter (item_of DEFAULT_CONFIG 1 ''p''), Advance 10,
                  MouseEnter (item_of DEFAULT_CONFIG 0 ''s''), Advance 10,
                  MouseLeave (item_of DEFAULT_CONFIG 0 ''s''),
                  MouseLeave (item_of DEFAULT_CONFIG 1 ''p'')]
               (fresh_engine (\<lambda>v. NaN) DEFAULT_CONFIG [] 1024)) = {}
   \<and> open_submenus (run [Init, InitResume (Inr [sample_node ''p'' 1 [sample_node ''s'' 2
                    [sample_node ''t'' 3 []]]]),
                  MouseEnter (item_of DEFAULT_CONFIG 1 ''p''), Advance 10,
                  MouseEnter (item_of DEFAULT_CONFIG 0 ''s''), Advance 10,
                  MouseLeave (item_of DEFAULT_CONFIG 0 ''s''),
                  MouseLeave (item_of DEFAULT_CONFIG 1 ''p''), Advance 130]
               (fresh_engine (\<lambda>v. NaN) DEFAULT_CONFIG [] 1024)) = {1}"
  by (simp add: engine_eval)

text \<open>
  C4, amended: the controller holds one hover-open handle and one hover-close handle for
  the whole instance. For every state with unique timer handles, every list item with
  hover handlers and every sequence of events that contains no pointer-enter on any item
  and lasts less than that item's hover delay: the pointer-enter on the item arms an
  open timer for its submenu and stores its handle; after the events and the
  pointer-leave of the item that timer is no longer pending and has not fired, and it
  never fires later, whatever follows. If moreover the submenu was closed, no older
  timer was pending to open it and none of the events clicks its trigger, the submenu is
  still closed after the pointer-leave and no timer is pending to open it.
\<close>

theorem C4_leave_before_delay_cancels:
  assumes fresh: "handles_fresh s"
    and hover: "el_triggerType e = ''hover''"
    and no_enter: "list_all (\<lambda>ev. \<not> is_mouseenter ev) es"
    and early: "int (elapsed es) < el_hoverDelay e"
  shows "hoverTimeout (step (MouseEnter e) s) = Some (next_timer s)
    \<and> \<lparr>timer_id = next_timer s, due = clock s + el_hoverDelay e,
        callback = OpenSubmenu (el_id e)\<rparr> \<in> set (timers (step (MouseEnter e) s))
    \<and> (\<forall>es'. next_timer s \<notin> set (fired (run (MouseEnter e # es @ MouseLeave e # es') s))
           \<and> next_timer s \<notin> timer_id ` set (timers (run (MouseEnter e # es @ MouseLeave e # es') s)))
    \<and> (el_id e \<notin> expanded s
         \<and> list_all (\<lambda>t. callback t \<noteq> OpenSubmenu (el_id e)) (timers s)
         \<and> list_all (\<lambda>ev. \<not> clicks_on (el_id e) ev) es
       \<longrightarrow> el_id e \<notin> expanded (run (MouseEnter e # es @ [MouseLeave e]) s)
         \<and> list_all (\<lambda>t. callback t \<noteq> OpenSubmenu (el_id e))
             (timers (run (MouseEnter e # es @ [MouseLeave e]) s)))"
proof -
  let ?h = "next_timer s"
  let ?D = "clock s + el_hoverDelay e"
  let ?s1 = "step (MouseEnter e) s"
  let ?s2 = "run es ?s1"
  let ?s3 = "step (MouseLeave e) ?s2"
  from early have pos: "0 < el_hoverDelay e" by linarith
  have old: "\<forall>t \<in> set (timers s). timer_id t < ?h" and oldf: "?h \<notin> set (fired s)"
    using fresh by (auto simp add: handles_fresh_def list_all_iff)
  have s1: "hoverTimeout ?s1 = Some ?h" "?h \<notin> set (fired ?s1)" "?h < next_timer ?s1"
    "clock ?s1 = clock s"
    using hover oldf by (simp_all add: mouseenter_fields)
  have t1: "timers ?s1 = timers (clearTimeout (closeTimeout s) s) @
      [\<lparr>timer_id = ?h, due = ?D, callback = OpenSubmenu (el_id e)\<rparr>]"
    using hover pos by (simp add: mouseenter_fields)
  have d1: "\<forall>t \<in> set (timers ?s1). timer_id t = ?h \<longrightarrow> due t = ?D"
    using old t1 by (auto simp add: timers_clearTimeout)
  have w: "hoverTimeout ?s2 = Some ?h \<and> ?h \<notin> set (fired ?s2) \<and> ?h < next_timer ?s2 \<and>
         (\<forall>t \<in> set (timers ?s2). timer_id t = ?h \<longrightarrow> due t = ?D) \<and>
         clock ?s2 = clock ?s1 + int (elapsed es)"
    using s1 d1 early no_enter by (intro window_run) auto
  have t3: "timers ?s3 = timers (clearTimeout (hoverTimeout ?s2) ?s2) @
      [\<lparr>timer_id = next_timer ?s2, due = clock ?s2 + max 0 (el_closeDelay e),
        callback = CloseSubmenu (el_id e)\<rparr>]"
    using hover by (simp add: mouseleave_fields)
  have sp: "spent ?h ?s3"
    using w hover t3 by (auto simp add: spent_def timers_clearTimeout mouseleave_fields)
  have never: "?h \<notin> set (fired (run (MouseEnter e # es @ MouseLeave e # es') s))
           \<and> ?h \<notin> timer_id ` set (timers (run (MouseEnter e # es @ MouseLeave e # es') s))" for es'
    using spent_run [OF sp, of es'] by (simp add: spent_def run_Cons run_append)
  have closed: "el_id e \<notin> expanded (run (MouseEnter e # es @ [MouseLeave e]) s)
         \<and> list_all (\<lambda>t. callback t \<noteq> OpenSubmenu (el_id e))
             (timers (run (MouseEnter e # es @ [MouseLeave e]) s))"
    if a: "el_id e \<notin> expanded s
         \<and> list_all (\<lambda>t. callback t \<noteq> OpenSubmenu (el_id e)) (timers s)
         \<and> list_all (\<lambda>ev. \<not> clicks_on (el_id e) ev) es"
  proof -
    have e1: "el_id e \<notin> expanded ?s1" using a by (simp add: hover_expanded)
    have o1: "\<forall>t \<in> set (timers ?s1). callback t = OpenSubmenu (el_id e) \<longrightarrow> timer_id t = ?h"
      using a t1 by (auto simp add: timers_clearTimeout list_all_iff)
    have c2: "el_id e \<notin> expanded ?s2 \<and>
         (\<forall>t \<in> set (timers ?s2). callback t = OpenSubmenu (el_id e) \<longrightarrow> timer_id t = ?h)"
      using s1 d1 early no_enter e1 o1 a by (intro closed_run [where D = ?D]) auto
    then have "el_id e \<notin> expanded ?s3 \<and>
        list_all (\<lambda>t. callback t \<noteq> OpenSubmenu (el_id e)) (timers ?s3)"
      using w t3 by (auto simp add: timers_clearTimeout list_all_iff hover_expanded)
    then show ?thesis by (simp add: run_Cons run_append run_Nil)
  qed
  from s1(1) t1 never closed show ?thesis by auto
qed

text \<open>
  Witness for C4: after initialization the pointer enters \<open>p\<close>, 100 ms pass, the pointer
  leaves \<open>s\<close>, 49 ms pass and the pointer leaves \<open>p\<close>; timer 0 has not fired one second
  later and the submenu of \<open>p\<close> is closed.
\<close>

theorem C4_leave_before_delay_cancels_witness:
  "handles_fresh (run [Init, InitResume (Inr [sample_node ''p'' 1 [sample_node ''s'' 2
                    [sample_node ''t'' 3 []]]])] (fresh_engine (\<lambda>v. NaN) DEFAULT_CONFIG [] 1024))
   \<and> el_triggerType (item_of DEFAULT_CONFIG 1 ''p'') = ''hover''
   \<and> list_all (\<lambda>ev. \<not> is_mouseenter ev)
        [Advance 100, MouseLeave (item_of DEFAULT_CONFIG 0 ''s''), Advance 49]
   \<and> int (elapsed [Advance 100, MouseLeave (item_of DEFAULT_CONFIG 0 ''s''), Advance 49])
        < el_hoverDelay (item_of DEFAULT_CONFIG 1 ''p'')
   \<and> 0 \<notin> set (fired (run (MouseEnter (item_of DEFAULT_CONFIG 1 ''p'') #
              [Advance 100, MouseLeave (item_of DEFAULT_CONFIG 0 ''s''), Advance 49] @
              MouseLeave (item_of DEFAULT_CONFIG 1 ''p'') # [Advance 1000])
            (run [Init, InitResume (Inr [sample_node ''p'' 1 [sample_node ''s'' 2
                    [sample_node ''t'' 3 []]]])] (fresh_engine (\<lambda>v. NaN) DEFAULT_CONFIG [] 1024))))
   \<and> 1 \<notin> expanded (run (MouseEnter (item_of DEFAULT_CONFIG 1 ''p'') #
              [Advance 100, MouseLeave (item_of DEFAULT_CONFIG 0 ''s''), Advance 49] @
              [MouseLeave (item_of DEFAULT_CONFIG 1 ''p'')])
            (run [Init, InitResume (Inr [sample_node ''p'' 1 [sample_node ''s'' 2
                    [sample_node ''t'' 3 []]]])] (fresh_engine (\<lambda>v. NaN) DEFAULT_CONFIG [] 1024)))"
proof -
  let ?s = "run [Init, InitResume (Inr [sample_node ''p'' 1 [sample_node ''s'' 2
                    [sample_node ''t'' 3 []]]])] (fresh_engine (\<lambda>v. NaN) DEFAULT_CONFIG [] 1024)"
  let ?e = "item_of DEFAULT_CONFIG 1 ''p''"
  let ?es = "[Advance 100, MouseLeave (item_of DEFAULT_CONFIG 0 ''s''), Advance 49]"
  have h1: "handles_fresh ?s"
    by (intro handles_fresh_run handles_fresh_new)
  have h2: "el_triggerType ?e = ''hover''"
    by (simp add: item_of_def DEFAULT_CONFIG_def)
  have h3: "list_all (\<lambda>ev. \<not> is_mouseenter ev) ?es"
    by simp
  have h4: "int (elapsed ?es) < el_hoverDelay ?e"
    by (simp add: item_of_def DEFAULT_CONFIG_def)
  have n: "next_timer ?s = 0" and i: "el_id ?e = 1"
    by (simp_all add: engine_eval)
  have h5: "el_id ?e \<notin> expanded ?s"
    and h6: "list_all (\<lambda>t. callback t \<noteq> OpenSubmenu (el_id ?e)) (timers ?s)"
    by (simp_all add: engine_eval)
  have h7: "list_all (\<lambda>ev. \<not> clicks_on (el_id ?e) ev) ?es"
    by simp
  from C4_leave_before_delay_cancels [OF h1 h2 h3 h4] h5 h6 h7
  have "next_timer ?s \<notin> set (fired (run (MouseEnter ?e # ?es @ MouseLeave ?e # [Advance 1000]) ?s))"
    and "el_id ?e \<notin> expanded (run (MouseEnter ?e # ?es @ [MouseLeave ?e]) ?s)"
    by blast+
  then show ?thesis using h1 h2 h3 h4 unfolding n i by blast
qed

text \<open>
  C5, as stated, in hover mode on a viewport of 600 pixels, not wider than the mobile
  breakpoint: three top-level items \<open>a\<close>, \<open>b\<close>, \<open>c\<close> with children are rendered as
  elements 0, 1, 2. The pointer visits them in turn, staying on each for the hover
  delay; each pointer-enter clears the close timer armed by the previous pointer-leave,
  so all three submenus are open when the pointer is back on \<open>a\<close>. The click on the
  trigger of \<open>a\<close> passes the gate and closes \<open>a\<close> only: after this activation the
  submenus of \<open>b\<close> and \<open>c\<close>, two different paths, are open.
\<close>

theorem C5_two_open_after_activation_counterexample:
  "activates (item_of DEFAULT_CONFIG 0 ''a'')
     (run [Init, InitResume (Inr [sample_node ''a'' 1 [sample_node ''a1'' 2 []],
              sample_node ''b'' 1 [sample_node ''b1'' 2 []],
              sample_node ''c'' 1 [sample_node ''c1'' 2 []]]),
           MouseEnter (item_of DEFAULT_CONFIG 0 ''a''), Advance 150,
           MouseLeave (item_of DEFAULT_CONFIG 0 ''a''),
           MouseEnter (item_of DEFAULT_CONFIG 1 ''b''), Advance 150,
           MouseLeave (item_of DEFAULT_CONFIG 1 ''b''),
           MouseEnter (item_of DEFAULT_CONFIG 2 ''c''), Advance 150,
           MouseLeave (item_of DEFAULT_CONFIG 2 ''c''),
           MouseEnter (item_of DEFAULT_CONFIG 0 ''a'')]
        (fresh_engine (\<lambda>v. NaN) DEFAULT_CONFIG [] 600))
   \<and> open_submenus
     (run [Init, InitResume (Inr [sample_node ''a'' 1 [sample_node ''a1'' 2 []],
              sample_node ''b'' 1 [sample_node ''b1'' 2 []],
              sample_node ''c'' 1 [sample_node ''c1'' 2 []]]),
           MouseEnter (item_of DEFAULT_CONFIG 0 ''a''), Advance 150,
           MouseLeave (item_of DEFAULT_CONFIG 0 ''a''),
           MouseEnter (item_of DEFAULT_CONFIG 1 ''b''), Advance 150,
           MouseLeave (item_of DEFAULT_CONFIG 1 ''b''),
           MouseEnter (item_of DEFAULT_CONFIG 2 ''c''), Advance 150,
           MouseLeave (item_of DEFAULT_CONFIG 2 ''c''),
           MouseEnter (item_of DEFAULT_CONFIG 0 ''a'')]
        (fresh_engine (\<lambda>v. NaN) DEFAULT_CONFIG [] 600)) = {0, 1, 2}
   \<and> open_submenus
     (run [Init, InitResume (Inr [sample_node ''a'' 1 [sample_node ''a1'' 2 []],
              sample_node ''b'' 1 [sample_node ''b1'' 2 []],
              sample_node ''c'' 1 [sample_node ''c1'' 2 []]]),
           MouseEnter (item_of DEFAULT_CONFIG 0 ''a''), Advance 150,
           MouseLeave (item_of DEFAULT_CONFIG 0 ''a''),
           MouseEnter (item_of DEFAULT_CONFIG 1 ''b''), Advance 150,
           MouseLeave (item_of DEFAULT_CONFIG 1 ''b''),
           MouseEnter (item_of DEFAULT_CONFIG 2 ''c''), Advance 150,
           MouseLeave (item_of DEFAULT_CONFIG 2 ''c''),
           MouseEnter (item_of DEFAULT_CONFIG 0 ''a''),
           Click (item_of DEFAULT_CONFIG 0 ''a'')]
        (fresh_engine (\<lambda>v. NaN) DEFAULT_CONFIG [] 600)) = {1, 2}"
  by (simp add: engine_eval numeral_2_eq_2)

text \<open>
  Why the restriction on \<^verbatim>\<open>updateConfig\<close> is needed: a controller in hover mode opens the
  submenus of a parent and of its child by hovering; \<^verbatim>\<open>updateConfig\<close> then sets click
  mode without touching the rendered tree, so the configuration says click while two
  submenus are open; and a controller in click mode that is switched to hover mode and
  back after a refresh is in the same position.
\<close>

lemma updateConfig_keeps_open_submenus:
  "triggerType (config (run [Init, InitResume (Inr [sample_node ''p'' 1 [sample_node ''s'' 2
                    [sample_node ''t'' 3 []]]]),
                  MouseEnter (item_of DEFAULT_CONFIG 1 ''p''), Advance 150,
                  MouseEnter (item_of DEFAULT_CONFIG 0 ''s''), Advance 150,
                  UpdateConfig (no_options\<lparr>opt_triggerType := Some ''click''\<rparr>)]
               (fresh_engine (\<lambda>v. NaN) DEFAULT_CONFIG [] 1024))) = ''click''
   \<and> open_submenus (run [Init, InitResume (Inr [sample_node ''p'' 1 [sample_node ''s'' 2
                    [sample_node ''t'' 3 []]]]),
                  MouseEnter (item_of DEFAULT_CONFIG 1 ''p''), Advance 150,
                  MouseEnter (item_of DEFAULT_CONFIG 0 ''s''), Advance 150,
                  UpdateConfig (no_options\<lparr>opt_triggerType := Some ''click''\<rparr>)]
               (fresh_engine (\<lambda>v. NaN) DEFAULT_CONFIG [] 1024)) = {0, 1}"
  by (simp add: engine_eval config_eval)

text \<open>
  C5, amended: in every state, a click that passes the gate (click mode, or a viewport
  no wider than the mobile breakpoint) on a trigger whose submenu is not open first
  closes every open submenu of the rendered tree and then opens the target, after which
  the target is the only open submenu; on a trigger whose submenu is open it closes that
  submenu and leaves every other one as it is. In click mode at most one submenu is open
  in every state the controller reaches from its construction, as long as
  \<^verbatim>\<open>updateConfig\<close> is not called with \<^verbatim>\<open>triggerType: 'hover'\<close>.
\<close>

theorem C5_activation:
  "(activates e s \<and> el_id e \<notin> expanded s \<longrightarrow>
      click e s = openSubmenu (el_id e) (closeAllSubmenus s) \<and>
      open_submenus (closeAllSubmenus s) = {} \<and>
      (e \<in> set (rendered s) \<longrightarrow> open_submenus (click e s) = {el_id e}))
   \<and> (activates e s \<and> el_id e \<in> expanded s \<longrightarrow>
      click e s = closeSubmenu (el_id e) s \<and>
      open_submenus (click e s) = open_submenus s - {el_id e})
   \<and> (triggerType c = ''click'' \<and> well_dispatched es (fresh_engine conv c out w) \<and>
      list_all (\<lambda>ev. \<not> to_hover ev) es \<longrightarrow>
      card (open_submenus (run es (fresh_engine conv c out w))) \<le> 1)"
  using click_opens [of e s] click_closes [of e s] click_mode_one_open [of c es conv out w]
  by blast

text \<open>
  Witness for C5: in click mode two top-level items with children are rendered as
  elements 0 and 1; the hover delay is changed by \<^verbatim>\<open>updateConfig\<close>, the first item is
  clicked, and then either the second or the first again.
\<close>

theorem C5_activation_witness:
  "triggerType (DEFAULT_CONFIG\<lparr>triggerType := ''click''\<rparr>) = ''click''
   \<and> well_dispatched
        [Init, InitResume (Inr [sample_node ''a'' 1 [sample_node ''a1'' 2 []],
              sample_node ''b'' 1 [sample_node ''b1'' 2 []]]),
         UpdateConfig (no_options\<lparr>opt_hoverDelay := Some 10\<rparr>),
         Click (item_of (DEFAULT_CONFIG\<lparr>triggerType := ''click''\<rparr>) 0 ''a'')]
        (fresh_engine (\<lambda>v. NaN) (DEFAULT_CONFIG\<lparr>triggerType := ''click''\<rparr>) [] 1024)
   \<and> list_all (\<lambda>ev. \<not> to_hover ev)
        [Init, InitResume (Inr [sample_node ''a'' 1 [sample_node ''a1'' 2 []],
              sample_node ''b'' 1 [sample_node ''b1'' 2 []]]),
         UpdateConfig (no_options\<lparr>opt_hoverDelay := Some 10\<rparr>),
         Click (item_of (DEFAULT_CONFIG\<lparr>triggerType := ''click''\<rparr>) 0 ''a'')]
   \<and> card (open_submenus (run
        [Init, InitResume (Inr [sample_node ''a'' 1 [sample_node ''a1'' 2 []],
              sample_node ''b'' 1 [sample_node ''b1'' 2 []]]),
         UpdateConfig (no_options\<lparr>opt_hoverDelay := Some 10\<rparr>),
         Click (item_of (DEFAULT_CONFIG\<lparr>triggerType := ''click''\<rparr>) 0 ''a'')]
        (fresh_engine (\<lambda>v. NaN) (DEFAULT_CONFIG\<lparr>triggerType := ''click''\<rparr>) [] 1024))) \<le> 1
   \<and> activates (item_of (DEFAULT_CONFIG\<lparr>triggerType := ''click''\<rparr>) 1 ''b'')
        (run [Init, InitResume (Inr [sample_node ''a'' 1 [sample_node ''a1'' 2 []],
              sample_node ''b'' 1 [sample_node ''b1'' 2 []]]),
         UpdateConfig (no_options\<lparr>opt_hoverDelay := Some 10\<rparr>),
         Click (item_of (DEFAULT_CONFIG\<lparr>triggerType := ''click''\<rparr>) 0 ''a'')]
        (fresh_engine (\<lambda>v. NaN) (DEFAULT_CONFIG\<lparr>triggerType := ''click''\<rparr>) [] 1024))
   \<and> open_submenus (run
        [Init, InitResume (Inr [sample_node ''a'' 1 [sample_node ''a1'' 2 []],
              sample_node ''b'' 1 [sample_node ''b1'' 2 []]]),
         UpdateConfig (no_options\<lparr>opt_hoverDelay := Some 10\<rparr>),
         Click (item_of (DEFAULT_CONFIG\<lparr>triggerType := ''click''\<rparr>) 0 ''a'')]
        (fresh_engine (\<lambda>v. NaN) (DEFAULT_CONFIG\<lparr>triggerType := ''click''\<rparr>) [] 1024)) = {0}
   \<and> open_submenus (click (item_of (DEFAULT_CONFIG\<lparr>triggerType := ''click''\<rparr>) 1 ''b'')
        (run [Init, InitResume (Inr [sample_node ''a'' 1 [sample_node ''a1'' 2 []],
              sample_node ''b'' 1 [sample_node ''b1'' 2 []]]),
         UpdateConfig (no_options\<lparr>opt_hoverDelay := Some 10\<rparr>),
         Click (item_of (DEFAULT_CONFIG\<lparr>triggerType := ''click''\<rparr>) 0 ''a'')]
        (fresh_engine (\<lambda>v. NaN) (DEFAULT_CONFIG\<lparr>triggerType := ''click''\<rparr>) [] 1024))) = {1}
   \<and> open_submenus (click (item_of (DEFAULT_CONFIG\<lparr>triggerType := ''click''\<rparr>) 0 ''a'')
        (run [Init, InitResume (Inr [sample_node ''a'' 1 [sample_node ''a1'' 2 []],
              sample_node ''b'' 1 [sample_node ''b1'' 2 []]]),
         UpdateConfig (no_options\<lparr>opt_hoverDelay := Some 10\<rparr>),
         Click (item_of (DEFAULT_CONFIG\<lparr>triggerType := ''click''\<rparr>) 0 ''a'')]
        (fresh_engine (\<lambda>v. NaN) (DEFAULT_CONFIG\<lparr>triggerType := ''click''\<rparr>) [] 1024))) = {}"
proof -
  define c where "c = DEFAULT_CONFIG\<lparr>triggerType := ''click''\<rparr>"
  define es where "es = [Init, InitResume (Inr [sample_node ''a'' 1 [sample_node ''a1'' 2 []],
              sample_node ''b'' 1 [sample_node ''b1'' 2 []]]),
              UpdateConfig (no_options\<lparr>opt_hoverDelay := Some 10\<rparr>), Click (item_of c 0 ''a'')]"
  define s where "s = run es (fresh_engine (\<lambda>v. NaN) c [] 1024)"
  define a where "a = item_of c 0 ''a''"
  define b where "b = item_of c 1 ''b''"
  have ct: "triggerType c = ''click''" by (simp add: c_def)
  have wd: "well_dispatched es (fresh_engine (\<lambda>v. NaN) c [] 1024)"
    by (simp add: es_def c_def engine_eval config_eval)
  have nh: "list_all (\<lambda>ev. \<not> to_hover ev) es"
    by (simp add: es_def no_options_def)
  have act: "activates b s" "activates a s"
    by (simp_all add: activates_def item_of_def a_def b_def c_def)
  have r: "rendered s = [a, b]" and x: "expanded s = {0}"
    by (simp_all add: s_def es_def a_def b_def c_def engine_eval config_eval)
  have ids: "el_id a = 0" "el_id b = 1"
    by (simp_all add: item_of_def a_def b_def)
  have o: "open_submenus s = {0}"
    by (simp add: open_submenus_def r x ids)
  have one: "card (open_submenus s) \<le> 1"
    using C5_activation [of b s c es "\<lambda>v. NaN" "[]" 1024] ct wd nh unfolding s_def by blast
  have "activates b s \<and> el_id b \<notin> expanded s" "b \<in> set (rendered s)"
    using act x ids r by simp_all
  then have ob: "open_submenus (click b s) = {1}"
    using C5_activation [of b s c es "\<lambda>v. NaN" "[]" 1024] ids by metis
  have "activates a s \<and> el_id a \<in> expanded s"
    using act x ids by simp
  then have "open_submenus (click a s) = open_submenus s - {el_id a}"
    using C5_activation [of a s c es "\<lambda>v. NaN" "[]" 1024] by metis
  then have oa: "open_submenus (click a s) = {}"
    using o ids by simp
  from ct wd nh one act(1) o ob oa show ?thesis
    unfolding s_def es_def a_def b_def c_def by blast
qed




section \<open>Properties of the reconstruction\<close>

subsection \<open>Chains of parents\<close>

lemma ancestor_add:
  "ancestor par (a + b) k = (case ancestor par a k of None \<Rightarrow> None | Some x \<Rightarrow> ancestor par b x)"
  by (induction a arbitrary: k) (simp_all split: option.splits)

lemma ancestor_Suc_end:
  "ancestor par (Suc n) k = (case ancestor par n k of None \<Rightarrow> None | Some x \<Rightarrow> par x)"
  using ancestor_add [of par n 1 k] by (simp split: option.splits)

lemma rooted_iff:
  "rooted par n k \<longleftrightarrow> (\<exists>j<n. \<exists>r. ancestor par j k = Some r \<and> par r = None)"
proof (induction n arbitrary: k)
  case 0
  then show ?case by simp
next
  case (Suc n)
  show ?case
  proof (cases "par k")
    case None
    then have "ancestor par 0 k = Some k \<and> par k = None" by simp
    then show ?thesis using None by auto
  next
    case (Some p)
    have "(\<exists>j<Suc n. \<exists>r. ancestor par j k = Some r \<and> par r = None)
        \<longleftrightarrow> (\<exists>j<n. \<exists>r. ancestor par j p = Some r \<and> par r = None)"
    proof
      assume "\<exists>j<Suc n. \<exists>r. ancestor par j k = Some r \<and> par r = None"
      then obtain j r where j: "j < Suc n" "ancestor par j k = Some r" "par r = None" by blast
      then obtain j' where "j = Suc j'" using Some by (cases j) auto
      then show "\<exists>j<n. \<exists>r. ancestor par j p = Some r \<and> par r = None"
        using j Some by auto
    next
      assume "\<exists>j<n. \<exists>r. ancestor par j p = Some r \<and> par r = None"
      then obtain j r where "j < n" "ancestor par j p = Some r" "par r = None" by blast
      then have "Suc j < Suc n \<and> ancestor par (Suc j) k = Some r \<and> par r = None"
        using Some by simp
      then show "\<exists>j<Suc n. \<exists>r. ancestor par j k = Some r \<and> par r = None" by blast
    qed
    then show ?thesis using Some Suc.IH [of p] by simp
  qed
qed

lemma rooted_mono: "rooted par n k \<Longrightarrow> n \<le> n' \<Longrightarrow> rooted par n' k"
  unfolding rooted_iff by (meson less_le_trans)

lemma rooted_ancestor_None: "rooted par n k \<Longrightarrow> n \<le> j \<Longrightarrow> ancestor par j k = None"
proof (induction n arbitrary: k j)
  case 0
  then show ?case by simp
next
  case (Suc n)
  then obtain j' where j: "j = Suc j'" "n \<le> j'" by (cases j) auto
  show ?case
  proof (cases "par k")
    case None
    then show ?thesis using j by simp
  next
    case (Some p)
    then show ?thesis using Suc j by simp
  qed
qed

lemma cycle_repeats:
  assumes "ancestor par (Suc c) k = Some k"
  shows "ancestor par (j * Suc c) k = Some k"
proof (induction j)
  case 0
  then show ?case by simp
next
  case (Suc j)
  have "ancestor par (Suc c + j * Suc c) k =
      (case ancestor par (Suc c) k of None \<Rightarrow> None | Some x \<Rightarrow> ancestor par (j * Suc c) x)"
    by (rule ancestor_add)
  also have "\<dots> = ancestor par (j * Suc c) k"
    by (simp only: assms option.case)
  also have "\<dots> = Some k" by (rule Suc)
  finally show ?case by (simp only: mult_Suc)
qed

lemma on_cycle_not_rooted: "on_cycle par k \<Longrightarrow> \<not> rooted par n k"
proof
  assume "on_cycle par k" and r: "rooted par n k"
  then obtain c where "ancestor par (Suc c) k = Some k" by (auto simp add: on_cycle_def)
  then have "ancestor par (n * Suc c) k = Some k" by (rule cycle_repeats)
  moreover have "ancestor par (n * Suc c) k = None"
    using r by (rule rooted_ancestor_None) simp
  ultimately show False by simp
qed

lemma on_cycle_parent:
  assumes "on_cycle par c" and "par c = Some k"
  shows "on_cycle par k"
proof -
  from assms obtain n where n: "ancestor par (Suc n) c = Some c" by (auto simp add: on_cycle_def)
  then have "ancestor par n k = Some c" using assms(2) by simp
  then have "ancestor par (Suc n) k = Some k"
    unfolding ancestor_Suc_end using assms(2) by simp
  then show ?thesis by (auto simp add: on_cycle_def)
qed

text \<open>Two different keys with the same parent have no common descendant, unless the parent lies on a cycle.\<close>

lemma nested_descendant:
  assumes "ancestor par a x = Some c1" and "ancestor par b x = Some c2" and "a \<le> b"
  shows "ancestor par (b - a) c1 = Some c2"
proof -
  have "ancestor par (a + (b - a)) x = Some c2" using assms by simp
  then show ?thesis unfolding ancestor_add using assms(1) by simp
qed

lemma siblings_disjoint_le:
  assumes "par c1 = Some k" and "par c2 = Some k" and "c1 \<noteq> c2"
    and "ancestor par a x = Some c1" and "ancestor par b x = Some c2" and "a \<le> b"
  shows "on_cycle par k"
proof -
  have d: "ancestor par (b - a) c1 = Some c2"
    using assms(4,5,6) by (rule nested_descendant)
  then obtain d' where d': "b - a = Suc d'" using assms(3) by (cases "b - a") auto
  then have "ancestor par d' k = Some c2" using d assms(1) by simp
  then have "ancestor par (Suc d') k = Some k"
    unfolding ancestor_Suc_end using assms(2) by simp
  then show ?thesis by (auto simp add: on_cycle_def)
qed

lemma siblings_disjoint:
  assumes "par c1 = Some k" and "par c2 = Some k" and "c1 \<noteq> c2"
    and "ancestor par a x = Some c1" and "ancestor par b x = Some c2"
  shows "on_cycle par k"
proof (cases "a \<le> b")
  case True
  then show ?thesis using assms by (intro siblings_disjoint_le [of par c1 k c2 a x b]) auto
next
  case False
  then have "b \<le> a" by simp
  then show ?thesis using assms by (intro siblings_disjoint_le [of par c2 k c1 b x a]) auto
qed

lemma roots_disjoint:
  assumes "par r1 = None" and "par r2 = None"
    and "ancestor par a x = Some r1" and "ancestor par b x = Some r2"
  shows "r1 = r2"
proof -
  have le: "r = r'" if "par r = None" "ancestor par a' x = Some r" "ancestor par b' x = Some r'"
    "a' \<le> b'" for r r' a' b'
  proof -
    have d: "ancestor par (b' - a') r = Some r'" using that(2,3,4) by (rule nested_descendant)
    show ?thesis using d that(1) by (cases "b' - a'") auto
  qed
  show ?thesis
  proof (cases "a \<le> b")
    case True
    then show ?thesis using le [OF assms(1) assms(3) assms(4)] by simp
  next
    case False
    then have "b \<le> a" by simp
    then show ?thesis using le [OF assms(2) assms(4) assms(3)] by simp
  qed
qed

subsection \<open>Well-shaped trees\<close>

lemma tree_ids_nodes: "tree_ids t = map sn_id (tree_nodes t)"
  by (induction t) (simp add: map_concat comp_def cong: map_cong)

lemma shaped_node:
  "shaped m (SpNode i t u p ord' b cs) \<longleftrightarrow>
     node_of m (SpNode i t u p ord' b cs) \<and> list_all (shaped m) cs"
  by (auto simp add: shaped_def list_all_iff)

lemma linked_children:
  "c \<in> set (linked m (ChildrenOf k)) \<longleftrightarrow> c \<in> set (keys_of m) \<and> parent_of m c = Some k"
  by (auto simp add: linked_def)

lemma linked_roots:
  "c \<in> set (linked m RootItems) \<longleftrightarrow> c \<in> set (keys_of m) \<and> parent_of m c = None"
  by (auto simp add: linked_def)

lemma distinct_linked: "distinct (keys_of m) \<Longrightarrow> distinct (linked m a)"
  by (cases a) (simp_all add: linked_def)

lemma child_ids:
  assumes "node_of m t" and "c \<in> set (sn_children t)"
  shows "sn_id c \<in> set (keys_of m)" and "parent_of m (sn_id c) = Some (sn_id t)"
proof -
  have e: "map sn_id (sn_children t) = sort_key (ord_of m) (linked m (ChildrenOf (sn_id t)))"
    using assms(1) by (simp add: node_of_def)
  have "set (map sn_id (sn_children t)) = set (linked m (ChildrenOf (sn_id t)))"
    by (simp only: e set_sort)
  moreover have "sn_id c \<in> set (map sn_id (sn_children t))" using assms(2) by simp
  ultimately have "sn_id c \<in> set (linked m (ChildrenOf (sn_id t)))" by simp
  then show "sn_id c \<in> set (keys_of m)" and "parent_of m (sn_id c) = Some (sn_id t)"
    by (simp_all add: linked_children)
qed

text \<open>Every id in a well-shaped tree has the root of the tree among its ancestors.\<close>

lemma tree_ids_descend:
  "shaped m t \<Longrightarrow> x \<in> set (tree_ids t) \<Longrightarrow> \<exists>j. ancestor (parent_of m) j x = Some (sn_id t)"
proof (induction t arbitrary: x)
  case (SpNode i t u p ord' b cs)
  let ?n = "SpNode i t u p ord' b cs"
  from SpNode.prems(1) have n: "node_of m ?n" and sh: "list_all (shaped m) cs"
    by (simp_all add: shaped_node)
  show ?case
  proof (cases "x = i")
    case True
    then have "ancestor (parent_of m) 0 x = Some (sn_id ?n)" by simp
    then show ?thesis by blast
  next
    case False
    then obtain c where c: "c \<in> set cs" "x \<in> set (tree_ids c)"
      using SpNode.prems(2) by auto
    have "shaped m c" using sh c(1) by (simp add: list_all_iff)
    then obtain j where j: "ancestor (parent_of m) j x = Some (sn_id c)"
      using SpNode.IH [OF c(1) _ c(2)] by blast
    have "parent_of m (sn_id c) = Some i"
      using child_ids(2) [OF n, of c] c by simp
    then have "ancestor (parent_of m) (Suc j) x = Some (sn_id ?n)"
      unfolding ancestor_Suc_end using j by simp
    then show ?thesis by blast
  qed
qed

lemma distinct_concat_map:
  assumes "distinct (map g xs)"
    and "\<And>x. x \<in> set xs \<Longrightarrow> distinct (f x)"
    and "\<And>x y. x \<in> set xs \<Longrightarrow> y \<in> set xs \<Longrightarrow> g x \<noteq> g y \<Longrightarrow> set (f x) \<inter> set (f y) = {}"
  shows "distinct (concat (map f xs))"
  using assms
proof (induction xs)
  case Nil
  then show ?case by simp
next
  case (Cons x xs)
  have "set (f x) \<inter> set (f y) = {}" if "y \<in> set xs" for y
  proof -
    have "g x \<noteq> g y" using Cons.prems(1) that by auto
    then show ?thesis using Cons.prems(3) [of x y] that by simp
  qed
  moreover have "distinct (concat (map f xs))"
    using Cons by auto
  ultimately show ?case using Cons.prems(2) by auto
qed

text \<open>In a well-shaped tree whose root is not on a cycle, no id occurs twice.\<close>

lemma distinct_tree_ids:
  "shaped m t \<Longrightarrow> distinct (keys_of m) \<Longrightarrow> \<not> on_cycle (parent_of m) (sn_id t) \<Longrightarrow>
     distinct (tree_ids t)"
proof (induction t)
  case (SpNode i t u p ord' b cs)
  let ?n = "SpNode i t u p ord' b cs"
  let ?par = "parent_of m"
  from SpNode.prems(1) have n: "node_of m ?n" and sh: "\<And>c. c \<in> set cs \<Longrightarrow> shaped m c"
    by (simp_all add: shaped_node list_all_iff)
  have par: "?par (sn_id c) = Some i" if "c \<in> set cs" for c
    using child_ids(2) [OF n, of c] that by simp
  have nc: "\<not> on_cycle ?par i" using SpNode.prems(3) by simp
  have ids: "map sn_id cs = sort_key (ord_of m) (linked m (ChildrenOf i))"
    using n by (simp add: node_of_def)
  have dids: "distinct (map sn_id cs)"
    unfolding ids using SpNode.prems(2) by (simp add: distinct_linked)
  have sub: "distinct (tree_ids c)" if "c \<in> set cs" for c
  proof -
    have "\<not> on_cycle ?par (sn_id c)"
    proof
      assume "on_cycle ?par (sn_id c)"
      then have "on_cycle ?par i" using par [OF that] by (rule on_cycle_parent)
      then show False using nc by simp
    qed
    then show ?thesis using SpNode.IH [OF that sh [OF that] SpNode.prems(2)] by simp
  qed
  have disj: "set (tree_ids c) \<inter> set (tree_ids c') = {}"
    if cc: "c \<in> set cs" "c' \<in> set cs" "sn_id c \<noteq> sn_id c'" for c c'
  proof (rule ccontr)
    assume "set (tree_ids c) \<inter> set (tree_ids c') \<noteq> {}"
    then obtain x where x: "x \<in> set (tree_ids c)" "x \<in> set (tree_ids c')" by blast
    obtain a where a: "ancestor ?par a x = Some (sn_id c)"
      using tree_ids_descend [OF sh [OF cc(1)] x(1)] by blast
    obtain b' where b': "ancestor ?par b' x = Some (sn_id c')"
      using tree_ids_descend [OF sh [OF cc(2)] x(2)] by blast
    have "on_cycle ?par i"
      using siblings_disjoint [OF par [OF cc(1)] par [OF cc(2)] cc(3) a b'] .
    then show False using nc by simp
  qed
  have rest: "distinct (concat (map tree_ids cs))"
    using dids sub disj by (rule distinct_concat_map)
  have "i \<notin> set (concat (map tree_ids cs))"
  proof
    assume "i \<in> set (concat (map tree_ids cs))"
    then obtain c where c: "c \<in> set cs" "i \<in> set (tree_ids c)" by auto
    then obtain j where "ancestor ?par j i = Some (sn_id c)"
      using tree_ids_descend [OF sh [OF c(1)] c(2)] by blast
    then have "ancestor ?par (Suc j) i = Some i"
      unfolding ancestor_Suc_end using par [OF c(1)] by simp
    then show False using nc by (auto simp add: on_cycle_def)
  qed
  then show ?case using rest by simp
qed

text \<open>A forest of well-shaped trees on the roots of the map.\<close>

lemma distinct_forest_ids:
  assumes "list_all (shaped m) ts" and "distinct (keys_of m)"
    and "map sn_id ts = sort_key (ord_of m) (linked m RootItems)"
  shows "distinct (forest_ids ts)"
  unfolding forest_ids_def
proof (rule distinct_concat_map [where g = sn_id])
  show "distinct (map sn_id ts)"
    unfolding assms(3) using assms(2) by (simp add: distinct_linked)
next
  fix t assume t: "t \<in> set ts"
  then have "sn_id t \<in> set (linked m RootItems)"
    using assms(3) by (metis image_eqI set_map set_sort)
  then have "parent_of m (sn_id t) = None" by (simp add: linked_roots)
  then have nc: "\<not> on_cycle (parent_of m) (sn_id t)" by (simp add: on_cycle_def)
  have "shaped m t" using assms(1) t by (simp add: list_all_iff)
  then show "distinct (tree_ids t)"
    using assms(2) nc by (rule distinct_tree_ids)
next
  fix t t' assume t: "t \<in> set ts" "t' \<in> set ts" "sn_id t \<noteq> sn_id t'"
  have root: "parent_of m (sn_id r) = None" if "r \<in> set ts" for r
  proof -
    have "sn_id r \<in> set (linked m RootItems)"
      using assms(3) that by (metis image_eqI set_map set_sort)
    then show ?thesis by (simp add: linked_roots)
  qed
  show "set (tree_ids t) \<inter> set (tree_ids t') = {}"
  proof (rule ccontr)
    assume "set (tree_ids t) \<inter> set (tree_ids t') \<noteq> {}"
    then obtain x where x: "x \<in> set (tree_ids t)" "x \<in> set (tree_ids t')" by blast
    have sh: "shaped m t" "shaped m t'" using assms(1) t by (simp_all add: list_all_iff)
    obtain a where a: "ancestor (parent_of m) a x = Some (sn_id t)"
      using tree_ids_descend [OF sh(1) x(1)] by blast
    obtain b where b: "ancestor (parent_of m) b x = Some (sn_id t')"
      using tree_ids_descend [OF sh(2) x(2)] by blast
    from a b have "ancestor (parent_of m) a x = Some (sn_id t)"
      "ancestor (parent_of m) b x = Some (sn_id t')" by simp_all
    then have "sn_id t = sn_id t'"
      using roots_disjoint [OF root [OF t(1)] root [OF t(2)]] by blast
    then show False using t(3) by simp
  qed
qed

text \<open>Coverage: a well-shaped tree that holds a key holds the keys linked to it.\<close>

lemma tree_ids_children:
  "shaped m t \<Longrightarrow> p \<in> set (tree_ids t) \<Longrightarrow> k \<in> set (keys_of m) \<Longrightarrow>
     parent_of m k = Some p \<Longrightarrow> k \<in> set (tree_ids t)"
proof (induction t)
  case (SpNode i t u p' ord' b cs)
  let ?n = "SpNode i t u p' ord' b cs"
  from SpNode.prems(1) have n: "node_of m ?n" and sh: "\<And>c. c \<in> set cs \<Longrightarrow> shaped m c"
    by (simp_all add: shaped_node list_all_iff)
  show ?case
  proof (cases "p = i")
    case True
    then have "k \<in> set (linked m (ChildrenOf i))"
      using SpNode.prems(3,4) by (simp add: linked_children)
    then have "k \<in> set (map sn_id cs)" using n by (simp add: node_of_def)
    then obtain c where "c \<in> set cs" "sn_id c = k" by auto
    moreover have "sn_id c \<in> set (tree_ids c)" by (cases c) simp
    ultimately show ?thesis by auto
  next
    case False
    then obtain c where c: "c \<in> set cs" "p \<in> set (tree_ids c)"
      using SpNode.prems(2) by auto
    then have "k \<in> set (tree_ids c)"
      using SpNode.IH [OF c(1) sh [OF c(1)] c(2) SpNode.prems(3,4)] by simp
    then show ?thesis using c(1) by auto
  qed
qed

lemma parent_is_key: "parent_of m k = Some p \<Longrightarrow> p \<in> set (keys_of m)"
  by (auto simp add: parent_of_def keys_of_def split: option.splits if_splits
      dest: map_of_SomeD intro: rev_image_eqI)

lemma rooted_in_forest:
  assumes "list_all (shaped m) ts"
    and "map sn_id ts = sort_key (ord_of m) (linked m RootItems)"
  shows "rooted (parent_of m) n k \<Longrightarrow> k \<in> set (keys_of m) \<Longrightarrow> k \<in> set (forest_ids ts)"
proof (induction n arbitrary: k)
  case 0
  then show ?case by simp
next
  case (Suc n)
  show ?case
  proof (cases "parent_of m k")
    case None
    then have "k \<in> set (linked m RootItems)" using Suc.prems(2) by (simp add: linked_roots)
    then have "k \<in> set (map sn_id ts)" using assms(2) by simp
    then obtain t where "t \<in> set ts" "sn_id t = k" by auto
    moreover have "sn_id t \<in> set (tree_ids t)" by (cases t) simp
    ultimately show ?thesis by (auto simp add: forest_ids_def)
  next
    case (Some p)
    then have "rooted (parent_of m) n p" using Suc.prems(1) by simp
    then have "p \<in> set (forest_ids ts)"
      using Suc.IH parent_is_key [OF Some] by simp
    then obtain t where t: "t \<in> set ts" "p \<in> set (tree_ids t)"
      by (auto simp add: forest_ids_def)
    then have "k \<in> set (tree_ids t)"
      using tree_ids_children assms(1) Suc.prems(2) Some by (metis list_all_iff)
    then show ?thesis using t(1) by (auto simp add: forest_ids_def)
  qed
qed

lemma forest_ids_rooted:
  assumes "list_all (shaped m) ts"
    and "map sn_id ts = sort_key (ord_of m) (linked m RootItems)"
    and "k \<in> set (forest_ids ts)"
  shows "k \<in> set (keys_of m) \<and> (\<exists>n. rooted (parent_of m) n k)"
proof -
  from assms(3) obtain t where t: "t \<in> set ts" "k \<in> set (tree_ids t)"
    by (auto simp add: forest_ids_def)
  then have sh: "shaped m t" using assms(1) by (simp add: list_all_iff)
  then obtain j where j: "ancestor (parent_of m) j k = Some (sn_id t)"
    using tree_ids_descend t(2) by blast
  have "sn_id t \<in> set (linked m RootItems)"
    using assms(2) t(1) by (metis image_eqI set_map set_sort)
  then have "parent_of m (sn_id t) = None" by (simp add: linked_roots)
  then have "rooted (parent_of m) (Suc j) k"
    unfolding rooted_iff using j by blast
  moreover have "k \<in> set (keys_of m)"
  proof -
    obtain n where "n \<in> set (tree_nodes t)" "sn_id n = k"
      using t(2) by (auto simp add: tree_ids_nodes)
    then have "map_of m k \<noteq> None"
      using sh by (auto simp add: shaped_def list_all_iff node_of_def split: option.splits)
    then show ?thesis
      by (auto simp add: keys_of_def dest: map_of_SomeD intro: rev_image_eqI)
  qed
  ultimately show ?thesis by blast
qed

subsection \<open>The item map\<close>

lemma update_fresh: "k \<notin> fst ` set al \<Longrightarrow> AList.update k v al = al @ [(k, v)]"
  by (induction al) auto

lemma build_itemMap_snoc:
  "build_itemMap (items @ [item]) =
     AList.update (sp_Id item) (new_menu_item item) (build_itemMap items)"
  by (simp add: build_itemMap_def)

lemma set_update_subset: "set (AList.update k v al) \<subseteq> insert (k, v) (set al)"
  by (induction al) auto

lemma build_itemMap_ok: "item_map_ok (build_itemMap items)"
proof (induction items rule: rev_induct)
  case Nil
  then show ?case by (simp add: build_itemMap_def item_map_ok_def)
next
  case (snoc item items)
  let ?m = "build_itemMap items"
  have d: "distinct (map fst (AList.update (sp_Id item) (new_menu_item item) ?m))"
    using snoc by (simp add: item_map_ok_def distinct_update)
  have "set (AList.update (sp_Id item) (new_menu_item item) ?m)
          \<subseteq> insert (sp_Id item, new_menu_item item) (set ?m)"
    by (rule set_update_subset)
  then have "list_all (\<lambda>(k, it). mi_id it = k \<and> mi_children it = [])
        (AList.update (sp_Id item) (new_menu_item item) ?m)"
    using snoc by (auto simp add: item_map_ok_def list_all_iff new_menu_item_def)
  then show ?case using d by (simp add: build_itemMap_snoc item_map_ok_def)
qed

lemma build_itemMap_distinct:
  "distinct (map sp_Id items) \<Longrightarrow>
     build_itemMap items = map (\<lambda>item. (sp_Id item, new_menu_item item)) items"
proof (induction items rule: rev_induct)
  case Nil
  then show ?case by (simp add: build_itemMap_def)
next
  case (snoc item items)
  then have m: "build_itemMap items = map (\<lambda>item. (sp_Id item, new_menu_item item)) items"
    by simp
  have "sp_Id item \<notin> fst ` set (build_itemMap items)"
    using snoc.prems by (auto simp add: m)
  then show ?case
    by (simp add: build_itemMap_snoc update_fresh m)
qed

lemma strip_ok: "item_map_ok m \<Longrightarrow> strip m = m"
  by (induction m) (auto simp add: item_map_ok_def strip_def)

lemma map_fst_strip: "map fst (strip m) = map fst m"
  by (simp add: strip_def comp_def case_prod_beta)

lemma map_of_strip:
  "map_of (strip m) k = map_option (\<lambda>item. item\<lparr>mi_children := []\<rparr>) (map_of m k)"
  by (induction m) (auto simp add: strip_def)

lemma strip_map_entry_children:
  "strip (AList.map_entry k (\<lambda>item. item\<lparr>mi_children := f item\<rparr>) al) = strip al"
  by (induction al) (auto simp add: strip_def)

lemma heap_lookup:
  assumes "strip (itemMap h) = m"
  shows "map_of m k = map_option (\<lambda>item. item\<lparr>mi_children := []\<rparr>) (map_of (itemMap h) k)"
  using map_of_strip [of "itemMap h" k] assms by simp

lemma heap_has:
  assumes "strip (itemMap h) = m"
  shows "map_of (itemMap h) k \<noteq> None \<longleftrightarrow> map_of m k \<noteq> None"
  using heap_lookup [OF assms, of k] by (cases "map_of (itemMap h) k") simp_all

lemma heap_order:
  assumes "strip (itemMap h) = m"
  shows "order_of h = ord_of m"
proof
  fix k show "order_of h k = ord_of m k"
    using heap_lookup [OF assms, of k]
    by (cases "map_of (itemMap h) k") (simp_all add: order_of_def ord_of_def)
qed

subsection \<open>Reading and writing arrays\<close>

lemma read_write_other:
  "a \<noteq> b \<Longrightarrow> read_array (write_array h a xs) b = read_array h b"
  by (cases a; cases b) (auto simp add: read_array_def write_array_def map_of_map_entry split: option.splits)

lemma read_write_same:
  "read_array (write_array h a xs) a =
     (case a of RootItems \<Rightarrow> xs
      | ChildrenOf k \<Rightarrow> if map_of (itemMap h) k = None then [] else xs)"
  by (cases a) (auto simp add: read_array_def write_array_def map_of_map_entry split: option.splits)

lemma read_write_sorted:
  "read_array (write_array h a (sort_key f (read_array h a))) a = sort_key f (read_array h a)"
  by (cases a)
     (auto simp add: read_array_def write_array_def map_of_map_entry split: option.splits)

lemma strip_write: "strip (itemMap (write_array h a xs)) = strip (itemMap h)"
  by (cases a) (simp_all add: write_array_def strip_map_entry_children)

subsection \<open>The linking step\<close>

text \<open>The array that the linking step pushes an entry to.\<close>

lemma link_item_strip: "strip (itemMap (link_item h e)) = strip (itemMap h)"
proof -
  have "push_child c = (\<lambda>item. item\<lparr>mi_children := mi_children item @ [c]\<rparr>)" for c
    by (rule ext) (simp add: push_child_def)
  then show ?thesis
    by (cases e) (simp add: link_item_def strip_map_entry_children split: option.splits)
qed

lemma linked_strip: "strip (itemMap (foldl link_item h es)) = strip (itemMap h)"
  by (induction es rule: rev_induct) (simp_all add: link_item_strip)

text \<open>The parent that the linking step resolves for an object.\<close>

lemma read_link_item:
  assumes "strip (itemMap h) = m"
  shows "read_array (link_item h (c, item)) a =
     read_array h a @
       (if a = (case mi_parentId item of None \<Rightarrow> RootItems
                | Some p \<Rightarrow> if p \<noteq> 0 \<and> map_of m p \<noteq> None then ChildrenOf p else RootItems)
        then [c] else [])"
proof -
  have has: "map_of (itemMap h) p \<noteq> None \<longleftrightarrow> map_of m p \<noteq> None" for p
    using heap_has [OF assms] .
  show ?thesis
    using has
    by (cases a)
       (auto simp add: link_item_def read_array_def map_of_map_entry push_child_def
          split: option.splits)
qed

lemma read_foldl_link:
  assumes "strip (itemMap h) = m"
  shows "read_array (foldl link_item h es) a =
     read_array h a @
       map fst (filter (\<lambda>(c, item).
         a = (case mi_parentId item of None \<Rightarrow> RootItems
              | Some p \<Rightarrow> if p \<noteq> 0 \<and> map_of m p \<noteq> None then ChildrenOf p else RootItems)) es)"
proof (induction es rule: rev_induct)
  case Nil
  then show ?case by simp
next
  case (snoc e es)
  obtain c item where e: "e = (c, item)" by (cases e)
  have s: "strip (itemMap (foldl link_item h es)) = m"
    using assms by (simp add: linked_strip)
  show ?case
    using snoc by (simp add: e read_link_item [OF s])
qed

lemma target_parent:
  assumes "distinct (map fst m)" and "(c, item) \<in> set m"
  shows "(case mi_parentId item of None \<Rightarrow> RootItems
          | Some p \<Rightarrow> if p \<noteq> 0 \<and> map_of m p \<noteq> None then ChildrenOf p else RootItems)
       = (case parent_of m c of None \<Rightarrow> RootItems | Some p \<Rightarrow> ChildrenOf p)"
proof -
  have "map_of m c = Some item" using assms by simp
  then show ?thesis by (simp add: parent_of_def split: option.splits)
qed

lemma linked_alt:
  "linked m a = filter (\<lambda>c. a = (case parent_of m c of None \<Rightarrow> RootItems | Some p \<Rightarrow> ChildrenOf p))
     (keys_of m)"
  by (cases a) (auto simp add: linked_def intro!: filter_cong split: option.splits)

lemma read_link_items:
  assumes "item_map_ok m"
  shows "read_array (link_items m) a = linked m a"
proof -
  have d: "distinct (map fst m)" using assms by (simp add: item_map_ok_def)
  have s: "strip (itemMap \<lparr>itemMap = m, rootItems = []\<rparr>) = m"
    using assms by (simp add: strip_ok)
  have empty: "read_array \<lparr>itemMap = m, rootItems = []\<rparr> a = []"
  proof (cases a)
    case RootItems
    then show ?thesis by (simp add: read_array_def)
  next
    case (ChildrenOf k)
    show ?thesis
    proof (cases "map_of m k")
      case None
      then show ?thesis using ChildrenOf by (simp add: read_array_def)
    next
      case (Some item)
      then have "(k, item) \<in> set m" by (rule map_of_SomeD)
      then have "mi_children item = []"
        using assms by (auto simp add: item_map_ok_def list_all_iff)
      then show ?thesis using ChildrenOf Some by (simp add: read_array_def)
    qed
  qed
  have "filter (\<lambda>(c, item).
         a = (case mi_parentId item of None \<Rightarrow> RootItems
              | Some p \<Rightarrow> if p \<noteq> 0 \<and> map_of m p \<noteq> None then ChildrenOf p else RootItems)) m
      = filter ((\<lambda>c. a = (case parent_of m c of None \<Rightarrow> RootItems | Some p \<Rightarrow> ChildrenOf p)) \<circ> fst) m"
    by (rule filter_cong) (auto simp add: target_parent [OF d])
  then show ?thesis
    unfolding link_items_def read_foldl_link [OF s] empty linked_alt keys_of_def
    by (simp add: filter_map)
qed

lemma link_items_inv:
  assumes "item_map_ok m"
  shows "heap_inv m (link_items m)"
proof -
  have "strip (itemMap (link_items m)) = m"
    using assms by (simp add: link_items_def linked_strip strip_ok)
  then show ?thesis
    using read_link_items [OF assms] by (simp add: heap_inv_def)
qed

subsection \<open>Sorting the arrays\<close>

lemma sort_key_idem: "sort_key f (sort_key f xs) = sort_key f xs"
  by (simp add: sort_key_id_if_sorted)

lemma inv_sort_read:
  assumes "heap_inv m h"
  shows "sort_key (order_of h) (read_array h a) = sort_key (ord_of m) (linked m a)"
proof -
  have o: "order_of h = ord_of m" using assms by (simp add: heap_inv_def heap_order)
  have "read_array h a = linked m a \<or> read_array h a = sort_key (ord_of m) (linked m a)"
    using assms by (simp add: heap_inv_def sorted_at_def)
  then show ?thesis unfolding o by (auto simp add: sort_key_idem)
qed

lemma inv_empty:
  assumes "heap_inv m h"
  shows "read_array h a = [] \<longleftrightarrow> linked m a = []"
proof -
  have "read_array h a = linked m a \<or> read_array h a = sort_key (ord_of m) (linked m a)"
    using assms by (simp add: heap_inv_def sorted_at_def)
  moreover have "sort_key (ord_of m) (linked m a) = [] \<longleftrightarrow> linked m a = []"
    by (metis length_0_conv length_sort)
  ultimately show ?thesis by auto
qed

text \<open>The first statement of \<^verbatim>\<open>sortChildren\<close>.\<close>

lemma sort_step:
  fixes a :: array_ref
  assumes "heap_inv m h"
  defines "h1 \<equiv> write_array h a (sort_key (order_of h) (read_array h a))"
  shows "heap_inv m h1" and "sorted_at m h1 a"
    and "\<And>b. sorted_at m h b \<Longrightarrow> sorted_at m h1 b"
proof -
  have s: "strip (itemMap h1) = m"
    using assms by (simp add: heap_inv_def strip_write)
  have a: "read_array h1 a = sort_key (ord_of m) (linked m a)"
    unfolding h1_def read_write_sorted using assms(1) by (rule inv_sort_read)
  have other: "read_array h1 b = read_array h b" if "b \<noteq> a" for b
    unfolding h1_def using that by (simp add: read_write_other)
  show "sorted_at m h1 a" using a by (simp add: sorted_at_def)
  show "sorted_at m h1 b" if "sorted_at m h b" for b
    using that a other [of b] by (cases "b = a") (simp_all add: sorted_at_def)
  have "read_array h1 b = linked m b \<or> sorted_at m h1 b" for b
  proof (cases "b = a")
    case True
    then show ?thesis using a by (simp add: sorted_at_def)
  next
    case False
    then show ?thesis using other [of b] assms(1) by (simp add: heap_inv_def sorted_at_def)
  qed
  then show "heap_inv m h1" using s by (simp add: heap_inv_def)
qed

lemma below_linked:
  "b \<in> below m (ChildrenOf c) \<Longrightarrow> c \<in> set (linked m a) \<Longrightarrow> b \<in> below m a"
proof (induction rule: below.induct)
  case self
  then show ?case by (meson below.child below.self)
next
  case (child b c')
  then show ?case by (meson below.child)
qed

lemma below_cases:
  "b \<in> below m a \<Longrightarrow> b = a \<or> (\<exists>c \<in> set (linked m a). b \<in> below m (ChildrenOf c))"
proof (induction rule: below.induct)
  case self
  then show ?case by simp
next
  case (child b c)
  from child.IH show ?case
  proof
    assume "b = a"
    then have "ChildrenOf c \<in> below m (ChildrenOf c)" "c \<in> set (linked m a)"
      using child.hyps by (auto intro: below.self)
    then show ?thesis by blast
  next
    assume "\<exists>c' \<in> set (linked m a). b \<in> below m (ChildrenOf c')"
    then obtain c' where c': "c' \<in> set (linked m a)" "b \<in> below m (ChildrenOf c')" by blast
    then have "ChildrenOf c \<in> below m (ChildrenOf c')" using child.hyps(2) by (meson below.child)
    then show ?thesis using c'(1) by blast
  qed
qed

text \<open>
  With enough fuel for the depth below the array, \<^verbatim>\<open>sortChildren\<close> returns, having
  sorted every array it reaches and unsorted none.
\<close>

lemma sortChildren_sorts:
  "fits m n a \<Longrightarrow> heap_inv m h \<Longrightarrow>
     \<exists>h'. sortChildren n a h = Some h' \<and> heap_inv m h' \<and>
          (\<forall>b. sorted_at m h b \<longrightarrow> sorted_at m h' b) \<and>
          (\<forall>b \<in> below m a. sorted_at m h' b)"
proof (induction n arbitrary: a h)
  case 0
  then show ?case by simp
next
  case (Suc n)
  define h1 where "h1 = write_array h a (sort_key (order_of h) (read_array h a))"
  define body where "body = (\<lambda>k h'. if read_array h' (ChildrenOf k) \<noteq> []
                      then sortChildren n (ChildrenOf k) h' else Some h')"
  have inv1: "heap_inv m h1" and a1: "sorted_at m h1 a"
    and mono1: "\<And>b. sorted_at m h b \<Longrightarrow> sorted_at m h1 b"
    unfolding h1_def using sort_step [OF Suc.prems(2)] by blast+
  have kids: "linked m (ChildrenOf c) = [] \<or> fits m n (ChildrenOf c)" if "c \<in> set (linked m a)" for c
    using Suc.prems(1) that by (simp add: list_all_iff)
  have loop: "\<exists>h'. forEach body cs g = Some h' \<and> heap_inv m h' \<and>
          (\<forall>b. sorted_at m g b \<longrightarrow> sorted_at m h' b) \<and>
          (\<forall>c \<in> set cs. \<forall>b \<in> below m (ChildrenOf c). sorted_at m h' b)"
    if "set cs \<subseteq> set (linked m a)" "heap_inv m g" for cs g
    using that
  proof (induction cs arbitrary: g)
    case Nil
    then show ?case by simp
  next
    case (Cons c cs)
    have c: "c \<in> set (linked m a)" using Cons.prems(1) by simp
    have "\<exists>g1. body c g = Some g1 \<and> heap_inv m g1 \<and>
          (\<forall>b. sorted_at m g b \<longrightarrow> sorted_at m g1 b) \<and>
          (\<forall>b \<in> below m (ChildrenOf c). sorted_at m g1 b)"
    proof (cases "linked m (ChildrenOf c) = []")
      case True
      then have e: "read_array g (ChildrenOf c) = []"
        using inv_empty [OF Cons.prems(2)] by simp
      have "b = ChildrenOf c" if "b \<in> below m (ChildrenOf c)" for b
        using below_cases [OF that] True by simp
      moreover have "sorted_at m g (ChildrenOf c)"
        using e True by (simp add: sorted_at_def)
      ultimately show ?thesis using e Cons.prems(2) by (auto simp add: body_def)
    next
      case False
      then have ne: "read_array g (ChildrenOf c) \<noteq> []"
        using inv_empty [OF Cons.prems(2)] by simp
      have "fits m n (ChildrenOf c)" using kids [OF c] False by simp
      from Suc.IH [OF this Cons.prems(2)] show ?thesis using ne by (simp add: body_def)
    qed
    then obtain g1 where g1: "body c g = Some g1" "heap_inv m g1"
      "\<And>b. sorted_at m g b \<Longrightarrow> sorted_at m g1 b"
      "\<And>b. b \<in> below m (ChildrenOf c) \<Longrightarrow> sorted_at m g1 b" by blast
    have "set cs \<subseteq> set (linked m a)" using Cons.prems(1) by simp
    from Cons.IH [OF this g1(2)] obtain h' where h': "forEach body cs g1 = Some h'"
      "heap_inv m h'" "\<And>b. sorted_at m g1 b \<Longrightarrow> sorted_at m h' b"
      "\<And>c' b. c' \<in> set cs \<Longrightarrow> b \<in> below m (ChildrenOf c') \<Longrightarrow> sorted_at m h' b" by blast
    have "forEach body (c # cs) g = Some h'" using g1(1) h'(1) by simp
    moreover have "\<forall>b. sorted_at m g b \<longrightarrow> sorted_at m h' b" using g1(3) h'(3) by blast
    moreover have "\<forall>c' \<in> set (c # cs). \<forall>b \<in> below m (ChildrenOf c'). sorted_at m h' b"
      using g1(4) h'(3,4) by auto
    ultimately show ?case using h'(2) by blast
  qed
  have r1: "read_array h1 a = sort_key (ord_of m) (linked m a)"
    using a1 by (simp add: sorted_at_def)
  have "set (read_array h1 a) \<subseteq> set (linked m a)" by (simp add: r1)
  from loop [OF this inv1] obtain h' where h': "forEach body (read_array h1 a) h1 = Some h'"
    "heap_inv m h'" "\<And>b. sorted_at m h1 b \<Longrightarrow> sorted_at m h' b"
    "\<And>c b. c \<in> set (read_array h1 a) \<Longrightarrow> b \<in> below m (ChildrenOf c) \<Longrightarrow> sorted_at m h' b"
    by blast
  have run: "sortChildren (Suc n) a h = Some h'"
    using h'(1) by (simp add: h1_def body_def Let_def)
  have "sorted_at m h' b" if "b \<in> below m a" for b
    using below_cases [OF that]
  proof
    assume "b = a"
    then show ?thesis using a1 h'(3) by simp
  next
    assume "\<exists>c \<in> set (linked m a). b \<in> below m (ChildrenOf c)"
    then show ?thesis using h'(4) by (auto simp add: r1)
  qed
  then show ?case using run h'(2,3) mono1 by blast
qed

subsection \<open>Reading the tree\<close>

lemma those_map_all:
  assumes "\<And>x. x \<in> set xs \<Longrightarrow> \<exists>y. f x = Some y \<and> P x y"
  shows "\<exists>ys. those (map f xs) = Some ys \<and> list_all2 P xs ys"
  using assms
proof (induction xs)
  case Nil
  then show ?case by simp
next
  case (Cons x xs)
  obtain y where y: "f x = Some y" "P x y" using Cons.prems [of x] by auto
  obtain ys where ys: "those (map f xs) = Some ys" "list_all2 P xs ys"
    using Cons.IH Cons.prems by auto
  show ?case using y ys by simp
qed

lemma key_lookup: "k \<in> set (keys_of m) \<longleftrightarrow> map_of m k \<noteq> None"
  by (simp add: keys_of_def map_of_eq_None_iff)

lemma tree_at_step:
  assumes ok: "item_map_ok m" and inv: "heap_inv m h"
    and key: "map_of m k \<noteq> None"
    and sorted: "sorted_at m h (ChildrenOf k)"
    and kids: "\<And>c. c \<in> set (linked m (ChildrenOf k)) \<Longrightarrow>
        \<exists>t. tree_at n h c = Some t \<and> sn_id t = c \<and> shaped m t"
  shows "\<exists>t. tree_at (Suc n) h k = Some t \<and> sn_id t = k \<and> shaped m t"
proof -
  from key obtain item where item: "map_of m k = Some item" by blast
  have s: "strip (itemMap h) = m" using inv by (simp add: heap_inv_def)
  from heap_lookup [OF s, of k] item obtain item' where
    item': "map_of (itemMap h) k = Some item'" "item = item'\<lparr>mi_children := []\<rparr>"
    by (cases "map_of (itemMap h) k") auto
  have "(k, item) \<in> set m" using item by (rule map_of_SomeD)
  then have id: "mi_id item = k" using ok by (auto simp add: item_map_ok_def list_all_iff)
  let ?cs = "sort_key (ord_of m) (linked m (ChildrenOf k))"
  have cs: "mi_children item' = ?cs"
    using sorted item'(1) by (simp add: sorted_at_def read_array_def)
  have "\<exists>ts. those (map (tree_at n h) ?cs) = Some ts \<and>
      list_all2 (\<lambda>c t. sn_id t = c \<and> shaped m t) ?cs ts"
    by (rule those_map_all) (use kids in simp)
  then obtain ts where ts: "those (map (tree_at n h) ?cs) = Some ts"
    "list_all2 (\<lambda>c t. sn_id t = c \<and> shaped m t) ?cs ts" by blast
  have ids: "map sn_id ts = ?cs"
    using ts(2) by (induction rule: list_all2_induct) simp_all
  have sh: "list_all (shaped m) ts"
    using ts(2) by (induction rule: list_all2_induct) simp_all
  let ?t = "SpNode (mi_id item') (mi_title item') (mi_url item') (mi_parentId item')
                      (mi_order item') (mi_openInNewTab item') ts"
  have run: "tree_at (Suc n) h k = Some ?t"
    using item'(1) cs ts(1) by simp
  have i: "sn_id ?t = k" using id item'(2) by simp
  have "node_of m ?t"
    using item item'(2) ids i by (simp add: node_of_def)
  then have "shaped m ?t" using sh by (simp add: shaped_node)
  then show ?thesis using run i by blast
qed

lemma below_child_subset:
  assumes "c \<in> set (linked m a)"
  shows "below m (ChildrenOf c) \<subseteq> below m a"
  using assms below_linked by blast

lemma tree_at_shaped:
  assumes ok: "item_map_ok m" and inv: "heap_inv m h"
  shows "linked m (ChildrenOf k) = [] \<or> fits m n (ChildrenOf k) \<Longrightarrow> map_of m k \<noteq> None \<Longrightarrow>
     (\<forall>b \<in> below m (ChildrenOf k). sorted_at m h b) \<Longrightarrow>
     \<exists>t. tree_at (Suc n) h k = Some t \<and> sn_id t = k \<and> shaped m t"
proof (induction n arbitrary: k)
  case 0
  then have "linked m (ChildrenOf k) = []" by simp
  then have kids: "\<And>c. c \<in> set (linked m (ChildrenOf k)) \<Longrightarrow>
        \<exists>t. tree_at 0 h c = Some t \<and> sn_id t = c \<and> shaped m t" by simp
  have st: "sorted_at m h (ChildrenOf k)" using "0.prems"(3) by (simp add: below.self)
  show ?case by (rule tree_at_step [OF ok inv "0.prems"(2) st kids])
next
  case (Suc n)
  have kids: "\<exists>t. tree_at (Suc n) h c = Some t \<and> sn_id t = c \<and> shaped m t"
    if c: "c \<in> set (linked m (ChildrenOf k))" for c
  proof -
    have "fits m (Suc n) (ChildrenOf k)" using Suc.prems(1) c by auto
    then have "linked m (ChildrenOf c) = [] \<or> fits m n (ChildrenOf c)"
      using c by (simp add: list_all_iff)
    moreover have "map_of m c \<noteq> None"
      using c by (simp add: linked_children key_lookup)
    moreover have "\<forall>b \<in> below m (ChildrenOf c). sorted_at m h b"
      using Suc.prems(3) below_child_subset [OF c] by blast
    ultimately show ?thesis by (rule Suc.IH)
  qed
  have st: "sorted_at m h (ChildrenOf k)" using Suc.prems(3) by (simp add: below.self)
  show ?case by (rule tree_at_step [OF ok inv Suc.prems(2) st kids])
qed

subsection \<open>Enough fuel exists\<close>

lemma fits_Suc: "fits m n a \<Longrightarrow> fits m (Suc n) a"
proof (induction n arbitrary: a)
  case 0
  then show ?case by simp
next
  case (Suc n)
  then show ?case by (auto simp add: list_all_iff)
qed

lemma fits_add: "fits m n a \<Longrightarrow> fits m (n + d) a"
proof (induction d)
  case 0
  then show ?case by simp
next
  case (Suc d)
  then have "fits m (Suc (n + d)) a" by (intro fits_Suc) simp
  then show ?case by (simp only: add_Suc_right)
qed

lemma fits_mono: "fits m n a \<Longrightarrow> n \<le> n' \<Longrightarrow> fits m n' a"
  using fits_add [of m n a "n' - n"] by simp

text \<open>An object without descendants at distance \<open>n\<close> needs at most \<open>n\<close> nested calls.\<close>

lemma fits_no_descendant:
  "0 < n \<Longrightarrow> (\<forall>x \<in> set (keys_of m). ancestor (parent_of m) n x \<noteq> Some k) \<Longrightarrow>
     fits m n (ChildrenOf k)"
proof (induction n arbitrary: k)
  case 0
  then show ?case by simp
next
  case (Suc n)
  have "linked m (ChildrenOf c) = [] \<or> fits m n (ChildrenOf c)"
    if c: "c \<in> set (linked m (ChildrenOf k))" for c
  proof -
    have ck: "c \<in> set (keys_of m)" "parent_of m c = Some k"
      using c by (simp_all add: linked_children)
    show ?thesis
    proof (cases n)
      case 0
      have "ancestor (parent_of m) (Suc 0) c = Some k" using ck(2) by simp
      then show ?thesis using Suc.prems(2) ck(1) 0 by blast
    next
      case (Suc n')
      have "\<forall>x \<in> set (keys_of m). ancestor (parent_of m) n x \<noteq> Some c"
      proof
        fix x assume x: "x \<in> set (keys_of m)"
        show "ancestor (parent_of m) n x \<noteq> Some c"
        proof
          assume "ancestor (parent_of m) n x = Some c"
          then have "ancestor (parent_of m) (Suc n) x = Some k"
            unfolding ancestor_Suc_end using ck(2) by simp
          then show False using Suc.prems(2) x by blast
        qed
      qed
      then have "fits m n (ChildrenOf c)" using Suc by (intro Suc.IH) simp_all
      then show ?thesis by simp
    qed
  qed
  then show ?case by (simp add: list_all_iff)
qed

lemma rooted_bound:
  "\<exists>B. \<forall>x \<in> set xs. (\<exists>j. rooted par j x) \<longrightarrow> rooted par B x"
proof (induction xs)
  case Nil
  then show ?case by simp
next
  case (Cons x xs)
  then obtain B where B: "\<forall>y \<in> set xs. (\<exists>j. rooted par j y) \<longrightarrow> rooted par B y" by blast
  show ?case
  proof (cases "\<exists>j. rooted par j x")
    case True
    then obtain j where j: "rooted par j x" by blast
    have "rooted par (max B j) x" using j by (rule rooted_mono) simp
    moreover have "rooted par (max B j) y" if "y \<in> set xs" "\<exists>i. rooted par i y" for y
    proof -
      have "rooted par B y" using B that by blast
      then show ?thesis by (rule rooted_mono) simp
    qed
    ultimately have "\<forall>y \<in> set (x # xs). (\<exists>j. rooted par j y) \<longrightarrow> rooted par (max B j) y"
      by auto
    then show ?thesis by blast
  next
    case False
    then have "\<forall>y \<in> set (x # xs). (\<exists>j. rooted par j y) \<longrightarrow> rooted par B y"
      using B by auto
    then show ?thesis by blast
  qed
qed

lemma fits_roots: "\<exists>n. fits m n RootItems"
proof -
  obtain B where B: "\<forall>x \<in> set (keys_of m). (\<exists>j. rooted (parent_of m) j x) \<longrightarrow> rooted (parent_of m) B x"
    using rooted_bound by blast
  have "linked m (ChildrenOf r) = [] \<or> fits m (Suc B) (ChildrenOf r)"
    if r: "r \<in> set (linked m RootItems)" for r
  proof -
    have root: "parent_of m r = None" using r by (simp add: linked_roots)
    have "\<forall>x \<in> set (keys_of m). ancestor (parent_of m) (Suc B) x \<noteq> Some r"
    proof
      fix x assume x: "x \<in> set (keys_of m)"
      show "ancestor (parent_of m) (Suc B) x \<noteq> Some r"
      proof
        assume a: "ancestor (parent_of m) (Suc B) x = Some r"
        then have "rooted (parent_of m) (Suc (Suc B)) x"
          unfolding rooted_iff using root by blast
        then have "rooted (parent_of m) B x" using B x by blast
        then have "ancestor (parent_of m) (Suc B) x = None"
          by (rule rooted_ancestor_None) simp
        then show False using a by simp
      qed
    qed
    then have "fits m (Suc B) (ChildrenOf r)" by (intro fits_no_descendant) simp_all
    then show ?thesis by simp
  qed
  then have "fits m (Suc (Suc B)) RootItems" by (simp add: list_all_iff)
  then show ?thesis by blast
qed

subsection \<open>The whole function\<close>

lemma transform_fits:
  assumes "fits (build_itemMap items) fuel RootItems"
  shows "\<exists>ts. transformSharePointData fuel items = Some ts \<and>
       map sn_id ts = sort_key (ord_of (build_itemMap items)) (linked (build_itemMap items) RootItems) \<and>
       list_all (shaped (build_itemMap items)) ts"
proof -
  let ?m = "build_itemMap items"
  have ok: "item_map_ok ?m" by (rule build_itemMap_ok)
  have inv0: "heap_inv ?m (link_items ?m)" using ok by (rule link_items_inv)
  from sortChildren_sorts [OF assms inv0] obtain h where
    h: "sortChildren fuel RootItems (link_items ?m) = Some h" "heap_inv ?m h"
       "\<And>b. b \<in> below ?m RootItems \<Longrightarrow> sorted_at ?m h b" by blast
  obtain n where n: "fuel = Suc n" using assms by (cases fuel) auto
  let ?rs = "sort_key (ord_of ?m) (linked ?m RootItems)"
  have rs: "rootItems h = ?rs"
    using h(3) [OF below.self] by (simp add: sorted_at_def read_array_def)
  have "\<exists>t. tree_at (Suc n) h r = Some t \<and> sn_id t = r \<and> shaped ?m t" if "r \<in> set ?rs" for r
  proof -
    have r: "r \<in> set (linked ?m RootItems)" using that by simp
    have "linked ?m (ChildrenOf r) = [] \<or> fits ?m n (ChildrenOf r)"
      using assms r by (simp add: n list_all_iff)
    moreover have "map_of ?m r \<noteq> None" using r by (simp add: linked_roots key_lookup)
    moreover have "\<forall>b \<in> below ?m (ChildrenOf r). sorted_at ?m h b"
      using h(3) below_child_subset [OF r] by blast
    ultimately show ?thesis by (rule tree_at_shaped [OF ok h(2)])
  qed
  then have "\<exists>ts. those (map (tree_at (Suc n) h) ?rs) = Some ts \<and>
      list_all2 (\<lambda>r t. sn_id t = r \<and> shaped ?m t) ?rs ts"
    by (intro those_map_all) simp
  then obtain ts where ts: "those (map (tree_at (Suc n) h) ?rs) = Some ts"
    "list_all2 (\<lambda>r t. sn_id t = r \<and> shaped ?m t) ?rs ts" by blast
  have "map sn_id ts = ?rs"
    using ts(2) by (induction rule: list_all2_induct) simp_all
  moreover have "list_all (shaped ?m) ts"
    using ts(2) by (induction rule: list_all2_induct) simp_all
  moreover have "transformSharePointData fuel items = Some ts"
    using h(1) ts(1) rs by (simp add: transformSharePointData_def n)
  ultimately show ?thesis by blast
qed

lemma transform_returns:
  "\<exists>fuel0. \<forall>fuel \<ge> fuel0. \<exists>ts. transformSharePointData fuel items = Some ts \<and>
       map sn_id ts = sort_key (ord_of (build_itemMap items)) (linked (build_itemMap items) RootItems) \<and>
       list_all (shaped (build_itemMap items)) ts"
proof -
  obtain n where "fits (build_itemMap items) n RootItems" using fits_roots by blast
  then have "fits (build_itemMap items) fuel RootItems" if "n \<le> fuel" for fuel
    using that by (rule fits_mono)
  then show ?thesis using transform_fits by blast
qed

subsection \<open>A bound on the fuel\<close>

lemma ancestor_prefix:
  assumes "ancestor par d x = Some r" and "i \<le> d"
  shows "\<exists>a. ancestor par i x = Some a \<and> ancestor par (d - i) a = Some r"
proof -
  have "ancestor par (i + (d - i)) x = Some r" using assms by simp
  then show ?thesis unfolding ancestor_add by (cases "ancestor par i x") simp_all
qed

lemma ancestor_key:
  assumes "x \<in> set (keys_of m)" and "ancestor (parent_of m) i x = Some a"
  shows "a \<in> set (keys_of m)"
proof (cases i)
  case 0
  then show ?thesis using assms by simp
next
  case (Suc i')
  then obtain y where "parent_of m y = Some a"
    using assms(2) unfolding Suc ancestor_Suc_end by (cases "ancestor (parent_of m) i' x") auto
  then show ?thesis by (rule parent_is_key)
qed

text \<open>The chain from a key to its root passes through different keys.\<close>

lemma chain_length:
  assumes x: "x \<in> set (keys_of m)"
    and d: "ancestor (parent_of m) d x = Some r" and root: "parent_of m r = None"
  shows "d < length (keys_of m)"
proof -
  let ?par = "parent_of m"
  define f where "f i = the (ancestor ?par i x)" for i
  have at: "ancestor ?par i x = Some (f i) \<and> ancestor ?par (d - i) (f i) = Some r" if "i \<le> d" for i
    using ancestor_prefix [OF d that] by (auto simp add: f_def)
  have "inj_on f {..d}"
  proof (rule inj_onI)
    fix i j assume ij: "i \<in> {..d}" "j \<in> {..d}" "f i = f j"
    have False if lt: "i' < j'" and le: "j' \<le> d" and eq: "f i' = f j'" for i' j'
    proof -
      have i': "ancestor ?par i' x = Some (f i')" "ancestor ?par (d - i') (f i') = Some r"
        using at [of i'] lt le by simp_all
      have j': "ancestor ?par j' x = Some (f j')" using at [of j'] le by simp
      have "ancestor ?par (j' - i') (f i') = Some (f j')"
        using nested_descendant [OF i'(1) j'] lt by simp
      moreover obtain c where "j' - i' = Suc c" using lt by (cases "j' - i'") auto
      ultimately have "on_cycle ?par (f i')" using eq by (auto simp add: on_cycle_def)
      moreover have "rooted ?par (Suc (d - i')) (f i')"
        unfolding rooted_iff using i'(2) root by blast
      ultimately show False using on_cycle_not_rooted by blast
    qed
    from this [of i j] this [of j i] ij show "i = j"
      by (cases i j rule: linorder_cases) auto
  qed
  moreover have "f ` {..d} \<subseteq> set (keys_of m)"
  proof
    fix a assume "a \<in> f ` {..d}"
    then obtain i where "i \<le> d" "a = f i" by auto
    then show "a \<in> set (keys_of m)" using at [of i] ancestor_key [OF x] by blast
  qed
  ultimately have "card {..d} \<le> card (set (keys_of m))"
    by (rule card_inj_on_le) simp
  also have "\<dots> \<le> length (keys_of m)" by (rule card_length)
  finally show ?thesis by simp
qed

lemma fits_length: "fits m (Suc (length (keys_of m))) RootItems"
proof -
  let ?N = "length (keys_of m)"
  have "linked m (ChildrenOf r) = [] \<or> fits m ?N (ChildrenOf r)"
    if r: "r \<in> set (linked m RootItems)" for r
  proof -
    have root: "parent_of m r = None" and key: "r \<in> set (keys_of m)"
      using r by (simp_all add: linked_roots)
    have pos: "0 < ?N" using key by (cases "keys_of m") auto
    have "\<forall>x \<in> set (keys_of m). ancestor (parent_of m) ?N x \<noteq> Some r"
      using chain_length [OF _ _ root] by blast
    then have "fits m ?N (ChildrenOf r)" using pos by (intro fits_no_descendant) simp_all
    then show ?thesis by simp
  qed
  then show ?thesis by (simp add: list_all_iff)
qed

lemma length_update_le: "length (AList.update k v al) \<le> Suc (length al)"
  by (induction al) auto

lemma length_build_itemMap: "length (build_itemMap items) \<le> length items"
proof (induction items rule: rev_induct)
  case Nil
  then show ?case by (simp add: build_itemMap_def)
next
  case (snoc item items)
  have "length (build_itemMap (items @ [item])) \<le> Suc (length (build_itemMap items))"
    unfolding build_itemMap_snoc by (rule length_update_le)
  then show ?case using snoc by simp
qed

lemma fits_items:
  assumes "length items < fuel"
  shows "fits (build_itemMap items) fuel RootItems"
proof -
  have "Suc (length (keys_of (build_itemMap items))) \<le> fuel"
    using assms length_build_itemMap [of items] by (simp add: keys_of_def)
  then show ?thesis using fits_length by (rule fits_mono [rotated])
qed

subsection \<open>From keys to records\<close>

lemma insort_key_map:
  "insort_key f (g x) (map g xs) = map g (insort_key (\<lambda>y. f (g y)) x xs)"
  by (induction xs) simp_all

lemma sort_key_map: "sort_key f (map g xs) = map g (sort_key (\<lambda>y. f (g y)) xs)"
  by (induction xs) (simp_all add: insort_key_map)

lemma insort_key_cong_set:
  "f x = g x \<Longrightarrow> (\<And>y. y \<in> set xs \<Longrightarrow> f y = g y) \<Longrightarrow> insort_key f x xs = insort_key g x xs"
  by (induction xs) simp_all

lemma sort_key_cong_set:
  "(\<And>y. y \<in> set xs \<Longrightarrow> f y = g y) \<Longrightarrow> sort_key f xs = sort_key g xs"
proof (induction xs)
  case Nil
  then show ?case by simp
next
  case (Cons x xs)
  have "sort_key f xs = sort_key g xs" using Cons by simp
  moreover have "insort_key f x (sort_key g xs) = insort_key g x (sort_key g xs)"
    using Cons.prems by (intro insort_key_cong_set) simp_all
  ultimately show ?case by simp
qed

lemma distinct_items:
  assumes "distinct (map sp_Id items)"
  shows "keys_of (build_itemMap items) = map sp_Id items"
    and "r \<in> set items \<Longrightarrow> map_of (build_itemMap items) (sp_Id r) = Some (new_menu_item r)"
    and "map_of (build_itemMap items) k \<noteq> None \<longleftrightarrow> k \<in> sp_Id ` set items"
proof -
  have m: "build_itemMap items = map (\<lambda>item. (sp_Id item, new_menu_item item)) items"
    using assms by (rule build_itemMap_distinct)
  show k: "keys_of (build_itemMap items) = map sp_Id items"
    by (simp add: m keys_of_def comp_def)
  show "map_of (build_itemMap items) (sp_Id r) = Some (new_menu_item r)" if "r \<in> set items"
  proof -
    have "distinct (map fst (build_itemMap items))" using assms k by (simp add: keys_of_def)
    moreover have "(sp_Id r, new_menu_item r) \<in> set (build_itemMap items)"
      using that by (auto simp add: m)
    ultimately show ?thesis by simp
  qed
  show "map_of (build_itemMap items) k \<noteq> None \<longleftrightarrow> k \<in> sp_Id ` set items"
    using k key_lookup [of k "build_itemMap items"] by simp
qed

lemma record_parent:
  assumes "distinct (map sp_Id items)" and "r \<in> set items"
  shows "parent_of (build_itemMap items) (sp_Id r) = resolved_parent items r"
    and "ord_of (build_itemMap items) (sp_Id r) = order_key r"
  using distinct_items(2) [OF assms] distinct_items(3) [OF assms(1)]
  by (auto simp add: parent_of_def ord_of_def resolved_parent_def order_key_def new_menu_item_def
      split: option.splits)

lemma linked_siblings:
  assumes "distinct (map sp_Id items)"
  shows "sort_key (ord_of (build_itemMap items)) (linked (build_itemMap items) a) =
     map sp_Id (siblings items (case a of RootItems \<Rightarrow> None | ChildrenOf p \<Rightarrow> Some p))"
proof -
  let ?m = "build_itemMap items"
  let ?p = "case a of RootItems \<Rightarrow> None | ChildrenOf p \<Rightarrow> Some p"
  have "linked ?m a = filter (\<lambda>k. parent_of ?m k = ?p) (map sp_Id items)"
    by (cases a) (simp_all add: linked_def distinct_items(1) [OF assms])
  also have "\<dots> = map sp_Id (filter (\<lambda>r. parent_of ?m (sp_Id r) = ?p) items)"
    by (simp add: filter_map comp_def)
  also have "filter (\<lambda>r. parent_of ?m (sp_Id r) = ?p) items
      = filter (\<lambda>r. resolved_parent items r = ?p) items"
    by (rule filter_cong) (simp_all add: record_parent [OF assms])
  finally have l: "linked ?m a = map sp_Id (filter (\<lambda>r. resolved_parent items r = ?p) items)" .
  have "sort_key (\<lambda>r. ord_of ?m (sp_Id r)) (filter (\<lambda>r. resolved_parent items r = ?p) items)
      = sort_key order_key (filter (\<lambda>r. resolved_parent items r = ?p) items)"
    by (rule sort_key_cong_set) (simp add: record_parent [OF assms])
  then show ?thesis by (simp add: l sort_key_map siblings_def)
qed

text \<open>A node of the item map stands for the record with its id.\<close>

lemma node_of_record:
  assumes d: "distinct (map sp_Id items)" and n: "node_of (build_itemMap items) t"
  shows "\<exists>r \<in> set items. node_for r t \<and>
     map sn_id (sn_children t) = map sp_Id (siblings items (Some (sp_Id r)))"
proof -
  let ?m = "build_itemMap items"
  from n obtain item where item: "map_of ?m (sn_id t) = Some item"
    by (auto simp add: node_of_def split: option.splits)
  then have "sn_id t \<in> sp_Id ` set items" using distinct_items(3) [OF d, of "sn_id t"] by simp
  then obtain r where r: "r \<in> set items" "sp_Id r = sn_id t" by auto
  then have "item = new_menu_item r" using distinct_items(2) [OF d, of r] item by simp
  then have "node_for r t"
    using n item r(2) by (simp add: node_of_def node_for_def new_menu_item_def order_key_def)
  moreover have "map sn_id (sn_children t) = map sp_Id (siblings items (Some (sp_Id r)))"
    using n linked_siblings [OF d, of "ChildrenOf (sn_id t)"] r(2) by (simp add: node_of_def)
  ultimately show ?thesis using r(1) by blast
qed

subsection \<open>Acyclic collections\<close>

lemma keys_build_itemMap: "set (keys_of (build_itemMap items)) = sp_Id ` set items"
proof (induction items rule: rev_induct)
  case Nil
  then show ?case by (simp add: build_itemMap_def keys_of_def)
next
  case (snoc item items)
  then show ?case
    using dom_update [of "sp_Id item" "new_menu_item item" "build_itemMap items"]
    by (auto simp add: build_itemMap_snoc keys_of_def)
qed

lemma rooted_length:
  assumes "x \<in> set (keys_of m)" and "rooted (parent_of m) n x"
  shows "rooted (parent_of m) (length (keys_of m)) x"
proof -
  from assms(2) obtain j r where j: "ancestor (parent_of m) j x = Some r" "parent_of m r = None"
    unfolding rooted_iff by blast
  then have "j < length (keys_of m)" using chain_length [OF assms(1)] by blast
  then show ?thesis unfolding rooted_iff using j by blast
qed

lemma not_rooted_chain: "\<not> rooted par n x \<Longrightarrow> \<exists>a. ancestor par n x = Some a"
proof (induction n arbitrary: x)
  case 0
  then show ?case by simp
next
  case (Suc n)
  then obtain p where p: "par x = Some p" by (cases "par x") auto
  then have "\<not> rooted par n p" using Suc.prems by simp
  then show ?case using Suc.IH p by simp
qed

text \<open>A chain that does not end within as many steps as there are keys runs into a cycle.\<close>

lemma unrooted_cycle:
  assumes x: "x \<in> set (keys_of m)" and nr: "\<not> rooted (parent_of m) (length (keys_of m)) x"
  shows "\<exists>k \<in> set (keys_of m). on_cycle (parent_of m) k"
proof -
  let ?par = "parent_of m" and ?N = "length (keys_of m)"
  obtain r where r: "ancestor ?par ?N x = Some r" using not_rooted_chain [OF nr] by blast
  define f where "f i = the (ancestor ?par i x)" for i
  have at: "ancestor ?par i x = Some (f i)" if "i \<le> ?N" for i
    using ancestor_prefix [OF r that] by (auto simp add: f_def)
  have img: "f ` {..?N} \<subseteq> set (keys_of m)"
  proof
    fix a assume "a \<in> f ` {..?N}"
    then obtain i where "i \<le> ?N" "a = f i" by auto
    then show "a \<in> set (keys_of m)" using at [of i] ancestor_key [OF x] by blast
  qed
  have "\<not> inj_on f {..?N}"
  proof
    assume "inj_on f {..?N}"
    then have "card {..?N} \<le> card (set (keys_of m))" using img by (rule card_inj_on_le) simp
    also have "\<dots> \<le> ?N" by (rule card_length)
    finally show False by simp
  qed
  then obtain i j where ij: "i \<le> ?N" "j \<le> ?N" "f i = f j" "i \<noteq> j"
    by (auto simp add: inj_on_def)
  have cyc: "on_cycle ?par (f i')" if lt: "i' < j'" and le: "j' \<le> ?N" and eq: "f i' = f j'"
    for i' j'
  proof -
    have "ancestor ?par (j' - i') (f i') = Some (f j')"
      using nested_descendant [OF at at, of i' j'] lt le by simp
    moreover obtain c where "j' - i' = Suc c" using lt by (cases "j' - i'") auto
    ultimately show ?thesis using eq by (auto simp add: on_cycle_def)
  qed
  have "on_cycle ?par (f i)"
  proof (cases "i < j")
    case True
    then show ?thesis using cyc [of i j] ij by simp
  next
    case False
    then have "j < i" using ij(4) by simp
    then show ?thesis using cyc [of j i] ij by simp
  qed
  moreover have "f i \<in> set (keys_of m)" using img ij(1) by auto
  ultimately show ?thesis by blast
qed

lemma acyclic_items_iff:
  "acyclic_items items \<longleftrightarrow>
     (\<forall>r \<in> set items. \<not> on_cycle (parent_of (build_itemMap items)) (sp_Id r))"
proof
  assume a: "acyclic_items items"
  show "\<forall>r \<in> set items. \<not> on_cycle (parent_of (build_itemMap items)) (sp_Id r)"
    using a on_cycle_not_rooted by (auto simp add: acyclic_items_def list_all_iff)
next
  let ?m = "build_itemMap items"
  assume nc: "\<forall>r \<in> set items. \<not> on_cycle (parent_of ?m) (sp_Id r)"
  have "rooted (parent_of ?m) (length items) (sp_Id r)" if r: "r \<in> set items" for r
  proof (rule ccontr)
    assume nr: "\<not> rooted (parent_of ?m) (length items) (sp_Id r)"
    have key: "sp_Id r \<in> set (keys_of ?m)" using r by (simp add: keys_build_itemMap)
    have "length (keys_of ?m) \<le> length items"
      using length_build_itemMap [of items] by (simp add: keys_of_def)
    then have "\<not> rooted (parent_of ?m) (length (keys_of ?m)) (sp_Id r)"
      using nr rooted_mono by blast
    then obtain k where "k \<in> set (keys_of ?m)" "on_cycle (parent_of ?m) k"
      using unrooted_cycle [OF key] by blast
    then show False using nc by (auto simp add: keys_build_itemMap)
  qed
  then show "acyclic_items items" by (simp add: acyclic_items_def list_all_iff)
qed

subsection \<open>The forest that is returned\<close>

lemma shaped_root: "shaped m t \<Longrightarrow> node_of m t"
  by (cases t) (simp add: shaped_node)

lemma node_order: "node_of m t \<Longrightarrow> sn_order t = ord_of m (sn_id t)"
  by (auto simp add: node_of_def ord_of_def split: option.splits)

lemma sorted_orders:
  assumes "list_all (node_of m) ts" and "map sn_id ts = sort_key (ord_of m) xs"
  shows "sorted (map sn_order ts)"
proof -
  have "map sn_order ts = map (ord_of m) (map sn_id ts)"
    using assms(1) by (induction ts) (simp_all add: node_order)
  then show ?thesis using assms(2) by (simp add: sorted_sort_key del: map_map)
qed

lemma children_are_nodes:
  "t \<in> set (tree_nodes T) \<Longrightarrow> c \<in> set (sn_children t) \<Longrightarrow> c \<in> set (tree_nodes T)"
proof (induction T)
  case (SpNode i ti u p ord' b cs)
  show ?case
  proof (cases "t = SpNode i ti u p ord' b cs")
    case True
    then have "c \<in> set cs" using SpNode.prems(2) by simp
    moreover have "c \<in> set (tree_nodes c)" by (cases c) simp
    ultimately show ?thesis by auto
  next
    case False
    then obtain c' where c': "c' \<in> set cs" "t \<in> set (tree_nodes c')"
      using SpNode.prems(1) by auto
    then have "c \<in> set (tree_nodes c')" using SpNode.IH SpNode.prems(2) by blast
    then show ?thesis using c'(1) by auto
  qed
qed

lemma forest_node_of:
  assumes "list_all (shaped m) ts" and "t \<in> set (forest_nodes ts)"
  shows "node_of m t" and "list_all (node_of m) (sn_children t)"
proof -
  from assms(2) obtain T where T: "T \<in> set ts" "t \<in> set (tree_nodes T)"
    by (auto simp add: forest_nodes_def)
  then have sh: "list_all (node_of m) (tree_nodes T)"
    using assms(1) by (simp add: list_all_iff shaped_def)
  then show "node_of m t" using T(2) by (simp add: list_all_iff)
  show "list_all (node_of m) (sn_children t)"
    using sh children_are_nodes [OF T(2)] by (simp add: list_all_iff)
qed

text \<open>What holds of the result for every collection, cyclic or not.\<close>

lemma transform_result:
  assumes "length items < fuel"
  defines "m \<equiv> build_itemMap items"
  shows "\<exists>forest. transformSharePointData fuel items = Some forest \<and>
       map sn_id forest = sort_key (ord_of m) (linked m RootItems) \<and>
       list_all (shaped m) forest \<and>
       distinct (forest_ids forest) \<and>
       set (forest_ids forest) = {k \<in> sp_Id ` set items. \<exists>n. rooted (parent_of m) n k}"
proof -
  have ok: "item_map_ok m" unfolding m_def by (rule build_itemMap_ok)
  then have d: "distinct (keys_of m)" by (simp add: item_map_ok_def keys_of_def)
  from transform_fits [OF fits_items [OF assms(1)]] obtain forest where
    f: "transformSharePointData fuel items = Some forest"
       "map sn_id forest = sort_key (ord_of m) (linked m RootItems)"
       "list_all (shaped m) forest"
    unfolding m_def by blast
  have "distinct (forest_ids forest)" using f(3) d f(2) by (rule distinct_forest_ids)
  moreover have "set (forest_ids forest) = {k \<in> sp_Id ` set items. \<exists>n. rooted (parent_of m) n k}"
  proof (intro set_eqI iffI)
    fix k assume "k \<in> set (forest_ids forest)"
    then show "k \<in> {k \<in> sp_Id ` set items. \<exists>n. rooted (parent_of m) n k}"
      using forest_ids_rooted [OF f(3) f(2)] keys_build_itemMap [of items] by (simp add: m_def)
  next
    fix k assume "k \<in> {k \<in> sp_Id ` set items. \<exists>n. rooted (parent_of m) n k}"
    then obtain n where "rooted (parent_of m) n k" "k \<in> set (keys_of m)"
      using keys_build_itemMap [of items] by (auto simp add: m_def)
    then show "k \<in> set (forest_ids forest)" using rooted_in_forest [OF f(3) f(2)] by blast
  qed
  ultimately show ?thesis using f by blast
qed

subsection \<open>Collections with repeated ids\<close>

lemma record_of_snoc:
  "record_of (items @ [item]) k = (if sp_Id item = k then Some item else record_of items k)"
  by (simp add: record_of_def Let_def)

lemma build_itemMap_lookup:
  "map_of (build_itemMap items) k = map_option new_menu_item (record_of items k)"
proof (induction items rule: rev_induct)
  case Nil
  then show ?case by (simp add: build_itemMap_def record_of_def)
next
  case (snoc item items)
  then show ?case
    by (simp add: build_itemMap_snoc update_conv' record_of_snoc)
qed

lemma node_of_last_record:
  assumes "node_of (build_itemMap items) t"
  shows "\<exists>r. record_of items (sn_id t) = Some r \<and> node_for r t"
proof -
  from assms obtain item where item: "map_of (build_itemMap items) (sn_id t) = Some item"
    by (auto simp add: node_of_def split: option.splits)
  then obtain r where r: "record_of items (sn_id t) = Some r" "item = new_menu_item r"
    by (auto simp add: build_itemMap_lookup)
  then have "node_for r t"
    using assms item
    by (simp add: node_of_def node_for_def new_menu_item_def order_key_def)
  then show ?thesis using r(1) by blast
qed

lemma set_linked:
  "set (linked (build_itemMap items) RootItems) =
     {k \<in> sp_Id ` set items. parent_of (build_itemMap items) k = None}"
  "set (linked (build_itemMap items) (ChildrenOf p)) =
     {k \<in> sp_Id ` set items. parent_of (build_itemMap items) k = Some p}"
  using keys_build_itemMap [of items] by (auto simp add: linked_def)

lemma node_of_children:
  assumes "node_of (build_itemMap items) t"
  shows "set (map sn_id (sn_children t)) =
     {k \<in> sp_Id ` set items. parent_of (build_itemMap items) k = Some (sn_id t)}"
proof -
  have "map sn_id (sn_children t) =
      sort_key (ord_of (build_itemMap items)) (linked (build_itemMap items) (ChildrenOf (sn_id t)))"
    using assms by (simp add: node_of_def)
  then show ?thesis by (simp add: set_linked del: set_map)
qed


subsection \<open>The claims on the reconstruction\<close>

lemma siblings_stable:
  "filter (\<lambda>r. order_key r = v) (siblings items p) =
     filter (\<lambda>r. order_key r = v) (filter (\<lambda>r. resolved_parent items r = p) items)"
  unfolding siblings_def by (rule sort_key_stable)

text \<open>
  C1, as stated, at three acyclic collections.
  Two records with the same id 1: \<^verbatim>\<open>itemMap.set\<close> overwrites the entry of the first with
  the second, and the tree has one node for two records.
  A record with id 0 and a record 1 whose \<^verbatim>\<open>ParentId\<close> is 0: \<^verbatim>\<open>item.ParentId || null\<close>
  is \<^verbatim>\<open>null\<close> for 0, so record 1 is a root although its reference names record 0.
  A list configured with \<^verbatim>\<open>ascending: false\<close>: the request asks for
  \<^verbatim>\<open>$orderby=Order desc\<close>, the server answers with order 2 before order 1, and the roots
  returned have order 1 before order 2, since the comparator of \<^verbatim>\<open>transformSharePointData\<close>
  is \<^verbatim>\<open>a.order - b.order\<close> in every configuration.
\<close>

theorem C1_placement_counterexample:
  "acyclic_items [sp_record 1 None (Some 1), sp_record 1 None (Some 2)]
   \<and> transformSharePointData 3 [sp_record 1 None (Some 1), sp_record 1 None (Some 2)]
       = Some [SpNode 1 ''t'' ''#'' None 2 False []]
   \<and> acyclic_items [sp_record 0 None None, sp_record 1 (Some 0) None]
   \<and> transformSharePointData 3 [sp_record 0 None None, sp_record 1 (Some 0) None]
       = Some [SpNode 0 ''t'' ''#'' None 0 False [], SpNode 1 ''t'' ''#'' None 0 False []]
   \<and> \<not> ascending (sample_sharePoint False)
   \<and> apiUrl (sample_sharePoint False) =
       ''https://site/_api/web/lists/getbytitle('' @ [CHR 0x27] @ ''Menu'' @ [CHR 0x27] @
       '')/items?$select=Title,Url,ParentId,Order,OpenInNewTab&$orderby=Order desc''
   \<and> getSharePointData 3 (sample_sharePoint False)
        (respond_with [sp_record 1 None (Some 2), sp_record 2 None (Some 1)])
       = Some (Inr [SpNode 2 ''t'' ''#'' None 1 False [], SpNode 1 ''t'' ''#'' None 2 False []])"
  by code_simp

text \<open>
  C1, amended: for every acyclic collection of records with distinct ids that a list
  configured as ascending (the default) answers with, and every bound on the depth of the
  calls that exceeds the number of records, \<^verbatim>\<open>getSharePointData\<close> returns the forest that
  the reconstruction builds, and in it every record's id occurs exactly once; the roots
  are the records whose parent reference is null, 0 or names no record; every node stands
  for the record of its id and its children are the records whose reference resolves to
  that id; every sibling sequence is sorted by order, ascending, a null order counting as
  0; and records of equal order keep the order they have in the input. Nothing is said of
  a list configured as descending. (\<open>acyclic_items_iff\<close>: a collection is acyclic exactly
  when no record is its own ancestor.)
\<close>

theorem C1_reconstruction:
  assumes ids: "distinct (map sp_Id items)"
    and acyclic: "acyclic_items items"
    and fuel: "length items < fuel"
    and config: "enabled c" "siteUrl c \<noteq> []" "listName c \<noteq> []" "ascending c"
    and answer: "fetch (apiUrl c) = Inr resp" "ok resp" "results resp = items"
  shows "\<exists>forest. getSharePointData fuel c fetch = Some (Inr forest)
     \<and> transformSharePointData fuel items = Some forest
     \<and> distinct (forest_ids forest) \<and> set (forest_ids forest) = sp_Id ` set items
     \<and> map sn_id forest = map sp_Id (siblings items None)
     \<and> sorted (map sn_order forest)
     \<and> (\<forall>t \<in> set (forest_nodes forest). \<exists>r \<in> set items. node_for r t \<and>
           map sn_id (sn_children t) = map sp_Id (siblings items (Some (sp_Id r))) \<and>
           sorted (map sn_order (sn_children t)))
     \<and> (\<forall>p v. filter (\<lambda>r. order_key r = v) (siblings items p) =
           filter (\<lambda>r. order_key r = v) (filter (\<lambda>r. resolved_parent items r = p) items))"
proof -
  let ?m = "build_itemMap items"
  from transform_result [OF fuel] obtain forest where
    f: "transformSharePointData fuel items = Some forest"
       "map sn_id forest = sort_key (ord_of ?m) (linked ?m RootItems)"
       "list_all (shaped ?m) forest"
       "distinct (forest_ids forest)"
       "set (forest_ids forest) = {k \<in> sp_Id ` set items. \<exists>n. rooted (parent_of ?m) n k}"
    by blast
  have got: "getSharePointData fuel c fetch = Some (Inr forest)"
    using config answer f(1) by (simp add: getSharePointData_def)
  have all: "set (forest_ids forest) = sp_Id ` set items"
    unfolding f(5) using acyclic by (auto simp add: acyclic_items_def list_all_iff)
  have roots: "map sn_id forest = map sp_Id (siblings items None)"
    unfolding f(2) using linked_siblings [OF ids, of RootItems] by simp
  have "list_all (node_of ?m) forest"
    using f(3) by (simp add: list_all_iff shaped_root)
  then have sroots: "sorted (map sn_order forest)" using f(2) by (rule sorted_orders)
  have nodes: "\<exists>r \<in> set items. node_for r t \<and>
           map sn_id (sn_children t) = map sp_Id (siblings items (Some (sp_Id r))) \<and>
           sorted (map sn_order (sn_children t))"
    if t: "t \<in> set (forest_nodes forest)" for t
  proof -
    have n: "node_of ?m t" and cs: "list_all (node_of ?m) (sn_children t)"
      using forest_node_of [OF f(3) t] by simp_all
    have "map sn_id (sn_children t) = sort_key (ord_of ?m) (linked ?m (ChildrenOf (sn_id t)))"
      using n by (simp add: node_of_def)
    with cs have "sorted (map sn_order (sn_children t))" by (rule sorted_orders)
    then show ?thesis using node_of_record [OF ids n] by blast
  qed
  show ?thesis
    using got f(1,4) all roots sroots nodes siblings_stable by blast
qed

text \<open>
  Witness for C1, the example of the specification on a list configured as ascending:
  records 1 (order 2), 2 (order 1) and 3 (parent 1, order 1) give the roots 2, 1 and the
  child 3 under 1.
\<close>

theorem C1_reconstruction_witness:
  "distinct (map sp_Id [sp_record 1 None (Some 2), sp_record 2 None (Some 1),
                        sp_record 3 (Some 1) (Some 1)])
   \<and> acyclic_items [sp_record 1 None (Some 2), sp_record 2 None (Some 1),
                     sp_record 3 (Some 1) (Some 1)]
   \<and> length [sp_record 1 None (Some 2), sp_record 2 None (Some 1),
              sp_record 3 (Some 1) (Some 1)] < (4::nat)
   \<and> enabled (sample_sharePoint True) \<and> siteUrl (sample_sharePoint True) \<noteq> []
   \<and> listName (sample_sharePoint True) \<noteq> [] \<and> ascending (sample_sharePoint True)
   \<and> (\<exists>forest. getSharePointData 4 (sample_sharePoint True)
                  (respond_with [sp_record 1 None (Some 2), sp_record 2 None (Some 1),
                     sp_record 3 (Some 1) (Some 1)]) = Some (Inr forest)
         \<and> distinct (forest_ids forest) \<and> set (forest_ids forest) = {1, 2, 3}
         \<and> map sn_id forest = [2, 1])
   \<and> getSharePointData 4 (sample_sharePoint True)
        (respond_with [sp_record 1 None (Some 2), sp_record 2 None (Some 1),
           sp_record 3 (Some 1) (Some 1)])
       = Some (Inr [SpNode 2 ''t'' ''#'' None 1 False [],
               SpNode 1 ''t'' ''#'' None 2 False [SpNode 3 ''t'' ''#'' (Some 1) 1 False []]])"
proof -
  define ex where "ex = [sp_record 1 None (Some 2), sp_record 2 None (Some 1),
                     sp_record 3 (Some 1) (Some 1)]"
  define r where "r = \<lparr>ok = True, status = ''200'', statusText = ''OK'', results = ex\<rparr>"
  have h1: "distinct (map sp_Id ex)" unfolding ex_def by code_simp
  have h2: "acyclic_items ex" unfolding ex_def by code_simp
  have h3: "length ex < (4::nat)" unfolding ex_def by simp
  have c: "enabled (sample_sharePoint True)" "siteUrl (sample_sharePoint True) \<noteq> []"
    "listName (sample_sharePoint True) \<noteq> []" "ascending (sample_sharePoint True)"
    by (simp_all add: sample_sharePoint_def)
  have a: "respond_with ex (apiUrl (sample_sharePoint True)) = Inr r" "ok r" "results r = ex"
    by (simp_all add: respond_with_def r_def)
  have s: "map sp_Id (siblings ex None) = [2, 1]" unfolding ex_def by code_simp
  have i: "sp_Id ` set ex = {1, 2, 3}" unfolding ex_def by (simp add: sp_record_def)
  have v: "getSharePointData 4 (sample_sharePoint True) (respond_with ex)
       = Some (Inr [SpNode 2 ''t'' ''#'' None 1 False [],
               SpNode 1 ''t'' ''#'' None 2 False [SpNode 3 ''t'' ''#'' (Some 1) 1 False []]])"
    unfolding ex_def by code_simp
  from C1_reconstruction [where fetch = "respond_with ex" and c = "sample_sharePoint True"
      and resp = r and items = ex and fuel = 4, OF h1 h2 h3 c a]
  obtain forest where
    f: "getSharePointData 4 (sample_sharePoint True) (respond_with ex) = Some (Inr forest)"
    "distinct (forest_ids forest)"
    "set (forest_ids forest) = sp_Id ` set ex" "map sn_id forest = map sp_Id (siblings ex None)"
    by blast
  have "getSharePointData 4 (sample_sharePoint True) (respond_with ex) = Some (Inr forest)
         \<and> distinct (forest_ids forest) \<and> set (forest_ids forest) = {1, 2, 3}
         \<and> map sn_id forest = [2, 1]"
    using f by (simp add: s i)
  then have "\<exists>forest. getSharePointData 4 (sample_sharePoint True) (respond_with ex)
           = Some (Inr forest)
         \<and> distinct (forest_ids forest) \<and> set (forest_ids forest) = {1, 2, 3}
         \<and> map sn_id forest = [2, 1]" ..
  then show ?thesis using h1 h2 h3 c v unfolding ex_def by blast
qed

text \<open>
  C2, as stated, for records 1 and 2 that name each other as parent and a record 3
  without parent: record 1 is its own second ancestor. \<^verbatim>\<open>getSharePointData\<close> returns
  normally with the tree that holds record 3 alone. Neither it nor
  \<^verbatim>\<open>transformSharePointData\<close> has a statement that throws, logs or calls back for a
  record left out, so the value returned is all there is, and it carries no error.
\<close>

theorem C2_no_error_reported_counterexample:
  "ancestor (parent_of (build_itemMap [sp_record 1 (Some 2) None, sp_record 2 (Some 1) None,
       sp_record 3 None None])) 2 1 = Some 1
   \<and> getSharePointData 4 (sample_sharePoint True)
        (respond_with [sp_record 1 (Some 2) None, sp_record 2 (Some 1) None,
           sp_record 3 None None])
       = Some (Inr [SpNode 3 ''t'' ''#'' None 0 False []])"
  by code_simp

text \<open>
  C2, amended: for every collection of records, with or without a cyclic parent chain
  and with or without repeated ids, and every bound on the depth of the calls that
  exceeds the number of records, the reconstruction returns. The forest it returns has
  exactly one node for each id whose chain of resolved parents ends, and no other node;
  so an id on a cycle has no node, nor has an id whose chain leads into a cycle. Each node
  carries the fields of the record that the map holds for its id, the last record of the
  collection with that id; the roots are the ids without a resolved parent and the
  children of a node are the ids whose resolved parent is the id of the node. When the
  configuration is complete and the request succeeds, \<^verbatim>\<open>getSharePointData\<close> returns that
  forest and no error: nothing is reported for the records that are left out.
\<close>

theorem C2_cycles_excluded_silently:
  assumes fuel: "length items < fuel"
  shows "\<exists>forest. transformSharePointData fuel items = Some forest
     \<and> distinct (forest_ids forest)
     \<and> set (forest_ids forest) =
         {k \<in> sp_Id ` set items. \<exists>n. rooted (parent_of (build_itemMap items)) n k}
     \<and> (\<forall>k. on_cycle (parent_of (build_itemMap items)) k \<longrightarrow> k \<notin> set (forest_ids forest))
     \<and> set (map sn_id forest) =
         {k \<in> sp_Id ` set items. parent_of (build_itemMap items) k = None}
     \<and> (\<forall>t \<in> set (forest_nodes forest).
           (\<exists>r. record_of items (sn_id t) = Some r \<and> node_for r t) \<and>
           set (map sn_id (sn_children t)) =
             {k \<in> sp_Id ` set items. parent_of (build_itemMap items) k = Some (sn_id t)})
     \<and> (enabled c \<and> siteUrl c \<noteq> [] \<and> listName c \<noteq> [] \<and>
         fetch (apiUrl c) = Inr resp \<and> ok resp \<and> results resp = items \<longrightarrow>
           getSharePointData fuel c fetch = Some (Inr forest))"
proof -
  let ?m = "build_itemMap items"
  from transform_result [OF fuel] obtain forest where
    f: "transformSharePointData fuel items = Some forest"
       "distinct (forest_ids forest)"
       "set (forest_ids forest) = {k \<in> sp_Id ` set items. \<exists>n. rooted (parent_of ?m) n k}"
       "map sn_id forest = sort_key (ord_of ?m) (linked ?m RootItems)"
       "list_all (shaped ?m) forest"
    by blast
  have cyc: "k \<notin> set (forest_ids forest)" if "on_cycle (parent_of ?m) k" for k
    unfolding f(3) using on_cycle_not_rooted [OF that] by simp
  have roots: "set (map sn_id forest) = {k \<in> sp_Id ` set items. parent_of ?m k = None}"
    unfolding f(4) by (simp add: set_linked)
  have nodes: "(\<exists>r. record_of items (sn_id t) = Some r \<and> node_for r t) \<and>
           set (map sn_id (sn_children t)) =
             {k \<in> sp_Id ` set items. parent_of ?m k = Some (sn_id t)}"
    if t: "t \<in> set (forest_nodes forest)" for t
    using forest_node_of(1) [OF f(5) t] node_of_last_record node_of_children by blast
  have got: "getSharePointData fuel c fetch = Some (Inr forest)"
    if "enabled c \<and> siteUrl c \<noteq> [] \<and> listName c \<noteq> [] \<and>
         fetch (apiUrl c) = Inr resp \<and> ok resp \<and> results resp = items"
    using that f(1) by (simp add: getSharePointData_def)
  from f(1,2,3) cyc roots nodes got show ?thesis by blast
qed

text \<open>
  Witness for C2: records 1 and 2 on a cycle, record 4 below record 1, and two records
  with id 3, of which the second has order 5.
\<close>

theorem C2_cycles_excluded_silently_witness:
  "length [sp_record 1 (Some 2) None, sp_record 2 (Some 1) None, sp_record 3 None None,
           sp_record 4 (Some 1) None, sp_record 3 None (Some 5)] < (6::nat)
   \<and> on_cycle (parent_of (build_itemMap [sp_record 1 (Some 2) None, sp_record 2 (Some 1) None,
        sp_record 3 None None, sp_record 4 (Some 1) None, sp_record 3 None (Some 5)])) 1
   \<and> (\<exists>forest. transformSharePointData 6 [sp_record 1 (Some 2) None, sp_record 2 (Some 1) None,
           sp_record 3 None None, sp_record 4 (Some 1) None, sp_record 3 None (Some 5)]
           = Some forest
         \<and> 1 \<notin> set (forest_ids forest)
         \<and> getSharePointData 6 (sample_sharePoint True)
             (respond_with [sp_record 1 (Some 2) None, sp_record 2 (Some 1) None,
                sp_record 3 None None, sp_record 4 (Some 1) None, sp_record 3 None (Some 5)])
             = Some (Inr forest))
   \<and> record_of [sp_record 1 (Some 2) None, sp_record 2 (Some 1) None, sp_record 3 None None,
           sp_record 4 (Some 1) None, sp_record 3 None (Some 5)] 3
       = Some (sp_record 3 None (Some 5))
   \<and> transformSharePointData 6 [sp_record 1 (Some 2) None, sp_record 2 (Some 1) None,
           sp_record 3 None None, sp_record 4 (Some 1) None, sp_record 3 None (Some 5)]
       = Some [SpNode 3 ''t'' ''#'' None 5 False []]"
proof -
  define ex where "ex = [sp_record 1 (Some 2) None, sp_record 2 (Some 1) None,
        sp_record 3 None None, sp_record 4 (Some 1) None, sp_record 3 None (Some 5)]"
  have h: "length ex < (6::nat)" unfolding ex_def by simp
  have "ancestor (parent_of (build_itemMap ex)) (Suc 1) 1 = Some 1"
    unfolding ex_def by code_simp
  then have cyc: "on_cycle (parent_of (build_itemMap ex)) 1"
    unfolding on_cycle_def by blast
  have c: "enabled (sample_sharePoint True) \<and> siteUrl (sample_sharePoint True) \<noteq> [] \<and>
      listName (sample_sharePoint True) \<noteq> [] \<and>
      respond_with ex (apiUrl (sample_sharePoint True))
        = Inr \<lparr>ok = True, status = ''200'', statusText = ''OK'', results = ex\<rparr> \<and>
      ok \<lparr>ok = True, status = ''200'', statusText = ''OK'', results = ex\<rparr> \<and>
      results \<lparr>ok = True, status = ''200'', statusText = ''OK'', results = ex\<rparr> = ex"
    by (simp add: sample_sharePoint_def respond_with_def)
  have rec: "record_of ex 3 = Some (sp_record 3 None (Some 5))"
    unfolding ex_def by (simp add: record_of_def sp_record_def)
  have v: "transformSharePointData 6 ex = Some [SpNode 3 ''t'' ''#'' None 5 False []]"
    unfolding ex_def by code_simp
  from C2_cycles_excluded_silently [OF h, of "sample_sharePoint True" "respond_with ex"
      "\<lparr>ok = True, status = ''200'', statusText = ''OK'', results = ex\<rparr>"]
  obtain forest where f: "transformSharePointData 6 ex = Some forest"
    "\<forall>k. on_cycle (parent_of (build_itemMap ex)) k \<longrightarrow> k \<notin> set (forest_ids forest)"
    "enabled (sample_sharePoint True) \<and> siteUrl (sample_sharePoint True) \<noteq> [] \<and>
      listName (sample_sharePoint True) \<noteq> [] \<and>
      respond_with ex (apiUrl (sample_sharePoint True))
        = Inr \<lparr>ok = True, status = ''200'', statusText = ''OK'', results = ex\<rparr> \<and>
      ok \<lparr>ok = True, status = ''200'', statusText = ''OK'', results = ex\<rparr> \<and>
      results \<lparr>ok = True, status = ''200'', statusText = ''OK'', results = ex\<rparr> = ex
      \<longrightarrow> getSharePointData 6 (sample_sharePoint True) (respond_with ex) = Some (Inr forest)"
    by blast
  have "transformSharePointData 6 ex = Some forest
         \<and> 1 \<notin> set (forest_ids forest)
         \<and> getSharePointData 6 (sample_sharePoint True) (respond_with ex) = Some (Inr forest)"
    using f(1) f(2) cyc f(3) c by blast
  then have "\<exists>forest. transformSharePointData 6 ex = Some forest
         \<and> 1 \<notin> set (forest_ids forest)
         \<and> getSharePointData 6 (sample_sharePoint True) (respond_with ex) = Some (Inr forest)" ..
  then show ?thesis using h cyc rec v unfolding ex_def by blast
qed

end
